theory Spec2Isabelle
  imports Main "HOL-Library.Sublist"
begin

section \<open>Values, callbacks and the store\<close>

text \<open>
  The module under study is \<^verbatim>\<open>src/promise/src/promise.ts\<close>. Its first class
  \<^verbatim>\<open>MyPromise\<close> (lines 42 to 315) is embedded below; the second class
  (lines 360 to 746) is embedded a second time further down.

  A JavaScript value is modelled by what the module can observe of it: whether it is an
  instance of \<^verbatim>\<open>MyPromise\<close> (a reference into the store), and, for any other object
  or function, what reading and calling its \<^verbatim>\<open>then\<close> member does. A foreign
  \<^verbatim>\<open>then\<close> is described by the calls it makes, in order, on the two callbacks
  it receives before it returns or throws; calls it makes later are separate calls of the
  same two closures.
\<close>

datatype val =
    VUndefined
  | VNull
  | VBool bool
  | VNum int
  | VStr string
  | VTypeError string
  | VAggregateError "val list" string
  | VRecord "(string \<times> val) list"
  | VArray nat
  | VPromise nat
  | VObject then_member
and then_member =
    ThenThrows val
  | ThenNotCallable
  | ThenCallable "then_call list" "val option"
and then_call =
    CallFulfill val
  | CallReject val

datatype outcome = Return val | Throw val

datatype PromiseState = Pending | Fulfilled | Rejected

text \<open>
  The closures the module creates share a small number of shapes; each shape is a
  constructor that carries what the closure captured. \<open>UserFn\<close> is a function supplied
  by the caller, \<open>NotCallable\<close> any value whose \<^verbatim>\<open>typeof\<close> is not
  \<^verbatim>\<open>"function"\<close>.
\<close>

text \<open>What the callbacks of one call of a combinator share: the instance the combinator
  returns, its array (\<^verbatim>\<open>promiseResults\<close>, \<^verbatim>\<open>promiseErrors\<close>), its counter
  (\<^verbatim>\<open>resolvedPromises\<close>, \<^verbatim>\<open>rejectedPromises\<close>) and
  \<^verbatim>\<open>values.length\<close>.\<close>

record combinator =
  outer :: nat
  results :: nat
  count :: nat
  total :: nat

datatype onfinally = FinAbsent | FinUser outcome | FinSettled combinator

datatype callback =
    NotCallable
  | UserFn "val \<Rightarrow> outcome"
  | ResolveFn nat
  | RejectFn nat
  | GuardedResolve nat nat
  | GuardedReject nat nat
  | PassThroughFulfilled onfinally
  | PassThroughRejected onfinally
  | ConstFn val
  | ThrowFn val
  | AllThen combinator nat
  | AllCatch nat
  | SettledThen nat nat
  | SettledCatch nat nat
  | AnyCatch combinator nat

text \<open>\<^verbatim>\<open>typeof f === "function"\<close>.\<close>

fun is_function :: "callback \<Rightarrow> bool" where
  "is_function NotCallable = False"
| "is_function _ = True"

text \<open>
  \<^verbatim>\<open>Handler<T>\<close>: the \<^verbatim>\<open>resolve\<close> and \<^verbatim>\<open>reject\<close> members are
  always the two closures of the instance \<^verbatim>\<open>then\<close> creates, so the record keeps
  that instance.
\<close>

record handler =
  onfulfilled :: callback
  onrejected :: callback
  downstream :: nat

record promise =
  state :: PromiseState
  result :: val
  handlers :: "handler list"

text \<open>
  The store: the instances, the microtask queue of the host (a job is the instance whose
  \<^verbatim>\<open>runHandlers\<close> queued it and the handler it runs), the \<^verbatim>\<open>called\<close>
  flags of thenable adoptions, and the arrays and counters of the combinators.
  \<open>invoked\<close> is the history of continuation bodies called so far, each named by the
  instance downstream of its record.
\<close>

record heap =
  promises :: "nat \<Rightarrow> promise"
  next_promise :: nat
  queue :: "(nat \<times> handler) list"
  called :: "nat \<Rightarrow> bool"
  next_called :: nat
  arrays :: "nat \<Rightarrow> val option list"
  next_array :: nat
  counters :: "nat \<Rightarrow> nat"
  next_counter :: nat
  invoked :: "nat list"

definition new_instance :: promise where
  "new_instance = \<lparr>state = Pending, result = VUndefined, handlers = []\<rparr>"

definition empty_heap :: heap where
  "empty_heap = \<lparr>promises = (\<lambda>_. new_instance), next_promise = 0, queue = [],
     called = (\<lambda>_. False), next_called = 0, arrays = (\<lambda>_. []), next_array = 0,
     counters = (\<lambda>_. 0), next_counter = 0, invoked = []\<rparr>"

definition state_of :: "heap \<Rightarrow> nat \<Rightarrow> PromiseState" where
  "state_of h p = state (promises h p)"

definition result_of :: "heap \<Rightarrow> nat \<Rightarrow> val" where
  "result_of h p = result (promises h p)"

definition handlers_of :: "heap \<Rightarrow> nat \<Rightarrow> handler list" where
  "handlers_of h p = handlers (promises h p)"

definition settle :: "nat \<Rightarrow> PromiseState \<Rightarrow> val \<Rightarrow> heap \<Rightarrow> heap" where
  "settle p s v h =
     h\<lparr>promises := (promises h)(p := (promises h p)\<lparr>state := s, result := v\<rparr>)\<rparr>"

section \<open>The first class\<close>

text \<open>\<^verbatim>\<open>runHandlers\<close>, lines 161 to 200: the queue of the instance is swapped for
  an empty one and one microtask is queued per handler, in order.\<close>

definition runHandlers :: "nat \<Rightarrow> heap \<Rightarrow> heap" where
  "runHandlers p h =
     (if state_of h p = Pending then h
      else h\<lparr>promises := (promises h)(p := (promises h p)\<lparr>handlers := []\<rparr>),
             queue := queue h @ map (Pair p) (handlers_of h p)\<rparr>)"

text \<open>The \<^verbatim>\<open>reject\<close> closure of instance \<open>p\<close>, lines 108 to 113.\<close>

definition reject :: "nat \<Rightarrow> val \<Rightarrow> heap \<Rightarrow> heap" where
  "reject p reason h =
     (if state_of h p \<noteq> Pending then h
      else runHandlers p (settle p Rejected reason h))"

text \<open>Lines 103 to 105, the end of the \<^verbatim>\<open>resolve\<close> closure.\<close>

definition fulfill :: "nat \<Rightarrow> val \<Rightarrow> heap \<Rightarrow> heap" where
  "fulfill p v h = runHandlers p (settle p Fulfilled v h)"

text \<open>The constructor, lines 49 to 120, for an executor given as a function of the new
  instance (whose two closures it receives); the executor returns what it threw, if
  anything.\<close>

definition construct :: "(nat \<Rightarrow> heap \<Rightarrow> val option \<times> heap) \<Rightarrow> heap \<Rightarrow> nat \<times> heap" where
  "construct executor h =
     (let p = next_promise h;
          h1 = h\<lparr>promises := (promises h)(p := new_instance), next_promise := Suc p\<rparr>
      in case executor p h1 of
           (None, h2) \<Rightarrow> (p, h2)
         | (Some e, h2) \<Rightarrow> (p, reject p e h2))"

text \<open>\<^verbatim>\<open>then\<close>, lines 122 to 136.\<close>

definition promise_then :: "nat \<Rightarrow> callback \<Rightarrow> callback \<Rightarrow> heap \<Rightarrow> nat \<times> heap" where
  "promise_then this onf onr h =
     construct (\<lambda>c h1.
       (None, runHandlers this
          (h1\<lparr>promises := (promises h1)(this := (promises h1 this)
             \<lparr>handlers := handlers_of h1 this @
                [\<lparr>onfulfilled = onf, onrejected = onr, downstream = c\<rparr>]\<rparr>)\<rparr>))) h"

text \<open>\<^verbatim>\<open>catch\<close>, lines 138 to 145.\<close>

definition promise_catch :: "nat \<Rightarrow> callback \<Rightarrow> heap \<Rightarrow> nat \<times> heap" where
  "promise_catch this onr h = promise_then this NotCallable onr h"

definition set_called :: "nat \<Rightarrow> heap \<Rightarrow> heap" where
  "set_called c h = h\<lparr>called := (called h)(c := True)\<rparr>"

text \<open>The \<^verbatim>\<open>resolve\<close> closure of instance \<open>p\<close>, lines 50 to 106, together with the
  calls a foreign \<^verbatim>\<open>then\<close> makes on the two guarded callbacks of lines 81 to 90
  (\<open>c\<close> is the \<^verbatim>\<open>called\<close> flag they share).\<close>

fun resolve :: "nat \<Rightarrow> val \<Rightarrow> heap \<Rightarrow> heap"
and then_calls :: "nat \<Rightarrow> nat \<Rightarrow> then_call list \<Rightarrow> heap \<Rightarrow> heap"
where
  "resolve p v h =
     (if state_of h p \<noteq> Pending then h
      else case v of
          VPromise q \<Rightarrow>
            if q = p then reject p (VTypeError ''A promise cannot be resolved with itself.'') h
            else snd (promise_then q (ResolveFn p) (RejectFn p) h)
        | VObject (ThenThrows e) \<Rightarrow> reject p e h
        | VObject (ThenCallable cs thrown) \<Rightarrow>
            (let c = next_called h;
                 h1 = h\<lparr>called := (called h)(c := False), next_called := Suc c\<rparr>;
                 h2 = then_calls p c cs h1
             in case thrown of
                  None \<Rightarrow> h2
                | Some e \<Rightarrow> if called h2 c then h2 else reject p e (set_called c h2))
        | _ \<Rightarrow> fulfill p v h)"
| "then_calls p c [] h = h"
| "then_calls p c (CallFulfill v # cs) h =
     then_calls p c cs (if called h c then h else resolve p v (set_called c h))"
| "then_calls p c (CallReject r # cs) h =
     then_calls p c cs (if called h c then h else reject p r (set_called c h))"

text \<open>The static \<^verbatim>\<open>resolve\<close> and \<^verbatim>\<open>reject\<close>, lines 205 to 217.\<close>

definition static_resolve :: "val \<Rightarrow> heap \<Rightarrow> nat \<times> heap" where
  "static_resolve v h =
     (case v of
        VPromise q \<Rightarrow> (q, h)
      | _ \<Rightarrow> construct (\<lambda>p h1. (None, resolve p v h1)) h)"

definition static_reject :: "val \<Rightarrow> heap \<Rightarrow> nat \<times> heap" where
  "static_reject reason h = construct (\<lambda>p h1. (None, reject p reason h1)) h"

text \<open>\<^verbatim>\<open>a[index] = v\<close> on a JavaScript array: a write past the end extends the
  array with holes.\<close>

definition arr_set :: "val option list \<Rightarrow> nat \<Rightarrow> val \<Rightarrow> val option list" where
  "arr_set xs i v =
     (if i < length xs then xs[i := Some v]
      else xs @ replicate (i - length xs) None @ [Some v])"

definition store_at :: "nat \<Rightarrow> nat \<Rightarrow> val \<Rightarrow> heap \<Rightarrow> heap" where
  "store_at a i v h = h\<lparr>arrays := (arrays h)(a := arr_set (arrays h a) i v)\<rparr>"

definition increment :: "nat \<Rightarrow> heap \<Rightarrow> heap" where
  "increment k h = h\<lparr>counters := (counters h)(k := Suc (counters h k))\<rparr>"

text \<open>The list an \<^verbatim>\<open>AggregateError\<close> copies from the array it is given: a hole
  reads as \<^verbatim>\<open>undefined\<close>.\<close>

definition array_values :: "val option list \<Rightarrow> val list" where
  "array_values xs = map (\<lambda>x. case x of None \<Rightarrow> VUndefined | Some v \<Rightarrow> v) xs"

text \<open>Calling \<^verbatim>\<open>onfinally\<close> with no argument. \<open>FinSettled\<close> is the callback of
  lines 269 to 274.\<close>

definition call_onfinally :: "onfinally \<Rightarrow> heap \<Rightarrow> outcome \<times> heap" where
  "call_onfinally f h =
     (case f of
        FinAbsent \<Rightarrow> (Return VUndefined, h)
      | FinUser out \<Rightarrow> (out, h)
      | FinSettled cx \<Rightarrow>
          (let h1 = increment (count cx) h
           in (Return VUndefined,
               if counters h1 (count cx) = total cx
               then resolve (outer cx) (VArray (results cx)) h1 else h1)))"

text \<open>The two closures of \<^verbatim>\<open>finally\<close>, lines 148 to 157.\<close>

definition passThroughFulfilled :: "onfinally \<Rightarrow> val \<Rightarrow> heap \<Rightarrow> outcome \<times> heap" where
  "passThroughFulfilled f v h =
     (case f of
        FinAbsent \<Rightarrow> (Return v, h)
      | _ \<Rightarrow>
        (case call_onfinally f h of
           (Throw e, h1) \<Rightarrow> (Throw e, h1)
         | (Return x, h1) \<Rightarrow>
             (let (q, h2) = static_resolve x h1;
                  (r, h3) = promise_then q (ConstFn v) NotCallable h2
              in (Return (VPromise r), h3))))"

definition passThroughRejected :: "onfinally \<Rightarrow> val \<Rightarrow> heap \<Rightarrow> outcome \<times> heap" where
  "passThroughRejected f reason h =
     (case call_onfinally f h of
        (Throw e, h1) \<Rightarrow> (Throw e, h1)
      | (Return x, h1) \<Rightarrow>
          (let (q, h2) = static_resolve x h1;
               (r, h3) = promise_then q (ThrowFn reason) NotCallable h2
           in (Return (VPromise r), h3)))"

text \<open>Calling a closure with one argument.\<close>

fun call_callback :: "callback \<Rightarrow> val \<Rightarrow> heap \<Rightarrow> outcome \<times> heap" where
  "call_callback NotCallable v h = (Throw (VTypeError ''not a function''), h)"
| "call_callback (UserFn f) v h = (f v, h)"
| "call_callback (ResolveFn p) v h = (Return VUndefined, resolve p v h)"
| "call_callback (RejectFn p) v h = (Return VUndefined, reject p v h)"
| "call_callback (GuardedResolve p c) v h =
     (Return VUndefined, if called h c then h else resolve p v (set_called c h))"
| "call_callback (GuardedReject p c) v h =
     (Return VUndefined, if called h c then h else reject p v (set_called c h))"
| "call_callback (PassThroughFulfilled f) v h = passThroughFulfilled f v h"
| "call_callback (PassThroughRejected f) v h = passThroughRejected f v h"
| "call_callback (ConstFn x) v h = (Return x, h)"
| "call_callback (ThrowFn r) v h = (Throw r, h)"
| "call_callback (AllThen cx i) v h =
     (let h1 = increment (count cx) h;
          h2 = store_at (results cx) i v h1
      in (Return VUndefined,
          if counters h2 (count cx) = total cx
          then resolve (outer cx) (VArray (results cx)) h2 else h2))"
| "call_callback (AllCatch p) v h = (Return VUndefined, reject p v h)"
| "call_callback (SettledThen a i) v h =
     (Return VUndefined,
      store_at a i (VRecord [(''status'', VStr ''fulfilled''), (''value'', v)]) h)"
| "call_callback (SettledCatch a i) v h =
     (Return VUndefined,
      store_at a i (VRecord [(''status'', VStr ''rejected''), (''reason'', v)]) h)"
| "call_callback (AnyCatch cx i) v h =
     (let h1 = increment (count cx) h;
          h2 = store_at (results cx) i v h1
      in (Return VUndefined,
          if counters h2 (count cx) = total cx
          then reject (outer cx)
                 (VAggregateError (array_values (arrays h2 (results cx)))
                    ''All promises rejected.'') h2
          else h2))"

text \<open>The microtask \<^verbatim>\<open>runHandlers\<close> queues for one handler, lines 172 to 198.\<close>

definition settle_with :: "nat \<Rightarrow> outcome \<times> heap \<Rightarrow> heap" where
  "settle_with d r =
     (case r of
        (Return x, h) \<Rightarrow> resolve d x h
      | (Throw e, h) \<Rightarrow> reject d e h)"

definition note_invoked :: "nat \<Rightarrow> heap \<Rightarrow> heap" where
  "note_invoked d h = h\<lparr>invoked := invoked h @ [d]\<rparr>"

definition run_job :: "nat \<times> handler \<Rightarrow> heap \<Rightarrow> heap" where
  "run_job j h =
     (let this = fst j; hdl = snd j;
          h1 = (if state_of h this = Fulfilled then
                  (if \<not> is_function (onfulfilled hdl)
                   then resolve (downstream hdl) (result_of h this) h
                   else settle_with (downstream hdl)
                          (call_callback (onfulfilled hdl) (result_of h this)
                             (note_invoked (downstream hdl) h)))
                else h)
      in if state_of h1 this = Rejected then
           (if \<not> is_function (onrejected hdl)
            then reject (downstream hdl) (result_of h1 this) h1
            else settle_with (downstream hdl)
                   (call_callback (onrejected hdl) (result_of h1 this)
                      (note_invoked (downstream hdl) h1)))
         else h1)"

text \<open>Modelled from the spec: the Scheduler, which is the host's and not part of the
  repository. Section 2 describes it as a single-threaded FIFO job queue;
  \<^verbatim>\<open>queueMicrotask\<close> appends a job (in \<open>runHandlers\<close>), and one tick takes the
  oldest job and runs it to completion.\<close>

definition run_next :: "heap \<Rightarrow> heap" where
  "run_next h =
     (case queue h of
        [] \<Rightarrow> h
      | j # js \<Rightarrow> run_job j (h\<lparr>queue := js\<rparr>))"

fun ticks :: "nat \<Rightarrow> heap \<Rightarrow> heap" where
  "ticks 0 h = h"
| "ticks (Suc n) h = ticks n (run_next h)"

text \<open>\<^verbatim>\<open>finally\<close>, lines 147 to 159.\<close>

definition promise_finally :: "nat \<Rightarrow> onfinally \<Rightarrow> heap \<Rightarrow> nat \<times> heap" where
  "promise_finally this f h =
     promise_then this (PassThroughFulfilled f) (PassThroughRejected f) h"

text \<open>The combinators, lines 219 to 314. Each \<^verbatim>\<open>forEach\<close> is a recursion over
  the list that carries the index.\<close>

definition new_array :: "heap \<Rightarrow> nat \<times> heap" where
  "new_array h =
     (next_array h, h\<lparr>arrays := (arrays h)(next_array h := []),
                       next_array := Suc (next_array h)\<rparr>)"

definition new_counter :: "heap \<Rightarrow> nat \<times> heap" where
  "new_counter h =
     (next_counter h, h\<lparr>counters := (counters h)(next_counter h := 0),
                         next_counter := Suc (next_counter h)\<rparr>)"

fun all_each :: "combinator \<Rightarrow> val list \<Rightarrow> nat \<Rightarrow> heap \<Rightarrow> heap" where
  "all_each cx [] i h = h"
| "all_each cx (v # vs) i h =
     (let (q, h1) = static_resolve v h;
          (r, h2) = promise_then q (AllThen cx i) NotCallable h1;
          (s, h3) = promise_catch r (AllCatch (outer cx)) h2
      in all_each cx vs (Suc i) h3)"

definition promise_all :: "val list \<Rightarrow> heap \<Rightarrow> nat \<times> heap" where
  "promise_all values h =
     (let (a, ha) = new_array h;
          (k, hk) = new_counter ha
      in construct (\<lambda>p h1.
           (None,
            if length values = 0
            then (let (e, h2) = new_array h1 in resolve p (VArray e) h2)
            else all_each \<lparr>outer = p, results = a, count = k, total = length values\<rparr>
                   values 0 h1)) hk)"

fun allSettled_each :: "combinator \<Rightarrow> val list \<Rightarrow> nat \<Rightarrow> heap \<Rightarrow> heap" where
  "allSettled_each cx [] i h = h"
| "allSettled_each cx (v # vs) i h =
     (let (q, h1) = static_resolve v h;
          (r, h2) = promise_then q (SettledThen (results cx) i) NotCallable h1;
          (s, h3) = promise_catch r (SettledCatch (results cx) i) h2;
          (t, h4) = promise_finally s (FinSettled cx) h3
      in allSettled_each cx vs (Suc i) h4)"

definition promise_allSettled :: "val list \<Rightarrow> heap \<Rightarrow> nat \<times> heap" where
  "promise_allSettled values h =
     (let (a, ha) = new_array h;
          (k, hk) = new_counter ha
      in construct (\<lambda>p h1.
           (None,
            if length values = 0
            then (let (e, h2) = new_array h1 in resolve p (VArray e) h2)
            else allSettled_each
                   \<lparr>outer = p, results = a, count = k, total = length values\<rparr>
                   values 0 h1)) hk)"

fun race_each :: "nat \<Rightarrow> val list \<Rightarrow> heap \<Rightarrow> heap" where
  "race_each p [] h = h"
| "race_each p (v # vs) h =
     (let (q, h1) = static_resolve v h;
          (r, h2) = promise_then q (ResolveFn p) (RejectFn p) h1
      in race_each p vs h2)"

definition promise_race :: "val list \<Rightarrow> heap \<Rightarrow> nat \<times> heap" where
  "promise_race values h = construct (\<lambda>p h1. (None, race_each p values h1)) h"

fun any_each :: "combinator \<Rightarrow> val list \<Rightarrow> nat \<Rightarrow> heap \<Rightarrow> heap" where
  "any_each cx [] i h = h"
| "any_each cx (v # vs) i h =
     (let (q, h1) = static_resolve v h;
          (r, h2) = promise_then q (ResolveFn (outer cx)) NotCallable h1;
          (s, h3) = promise_catch r (AnyCatch cx i) h2
      in any_each cx vs (Suc i) h3)"

definition promise_any :: "val list \<Rightarrow> heap \<Rightarrow> nat \<times> heap" where
  "promise_any values h =
     (let (a, ha) = new_array h;
          (k, hk) = new_counter ha
      in construct (\<lambda>p h1.
           (None,
            if length values = 0
            then reject p (VAggregateError [] ''Values is empty.'') h1
            else any_each \<lparr>outer = p, results = a, count = k, total = length values\<rparr>
                   values 0 h1)) hk)"

text \<open>A caller's executor is described like a foreign \<^verbatim>\<open>then\<close>: the calls it
  makes on \<^verbatim>\<open>resolve\<close> and \<^verbatim>\<open>reject\<close> before it returns or throws.\<close>

datatype exec_call = ExResolve val | ExReject val

fun exec_calls :: "nat \<Rightarrow> exec_call list \<Rightarrow> heap \<Rightarrow> heap" where
  "exec_calls p [] h = h"
| "exec_calls p (ExResolve v # cs) h = exec_calls p cs (resolve p v h)"
| "exec_calls p (ExReject r # cs) h = exec_calls p cs (reject p r h)"

definition new_promise :: "exec_call list \<Rightarrow> val option \<Rightarrow> heap \<Rightarrow> nat \<times> heap" where
  "new_promise cs thrown h = construct (\<lambda>p h1. (thrown, exec_calls p cs h1)) h"

section \<open>The second class\<close>

text \<open>The class of lines 360 to 746, embedded from its own text in the same way. It works
  on the same store and creates closures of the same shapes.\<close>

text \<open>\<^verbatim>\<open>runHandlers\<close>, lines 534 to 593: the queue of the instance is swapped for
  an empty one and one microtask is queued per handler, in order.\<close>

definition runHandlers2 :: "nat \<Rightarrow> heap \<Rightarrow> heap" where
  "runHandlers2 p h =
     (if state_of h p = Pending then h
      else h\<lparr>promises := (promises h)(p := (promises h p)\<lparr>handlers := []\<rparr>),
             queue := queue h @ map (Pair p) (handlers_of h p)\<rparr>)"

text \<open>The \<^verbatim>\<open>reject\<close> closure of instance \<open>p\<close>, lines 456 to 466.\<close>

definition reject2 :: "nat \<Rightarrow> val \<Rightarrow> heap \<Rightarrow> heap" where
  "reject2 p reason h =
     (if state_of h p \<noteq> Pending then h
      else runHandlers2 p (settle p Rejected reason h))"

text \<open>Lines 451 to 453, the end of the \<^verbatim>\<open>resolve\<close> closure.\<close>

definition fulfill2 :: "nat \<Rightarrow> val \<Rightarrow> heap \<Rightarrow> heap" where
  "fulfill2 p v h = runHandlers2 p (settle p Fulfilled v h)"

text \<open>The constructor, lines 373 to 475, for an executor given as a function of the new
  instance (whose two closures it receives); the executor returns what it threw, if
  anything.\<close>

definition construct2 :: "(nat \<Rightarrow> heap \<Rightarrow> val option \<times> heap) \<Rightarrow> heap \<Rightarrow> nat \<times> heap" where
  "construct2 executor h =
     (let p = next_promise h;
          h1 = h\<lparr>promises := (promises h)(p := new_instance), next_promise := Suc p\<rparr>
      in case executor p h1 of
           (None, h2) \<Rightarrow> (p, h2)
         | (Some e, h2) \<Rightarrow> (p, reject2 p e h2))"

text \<open>\<^verbatim>\<open>then\<close>, lines 479 to 498.\<close>

definition promise_then2 :: "nat \<Rightarrow> callback \<Rightarrow> callback \<Rightarrow> heap \<Rightarrow> nat \<times> heap" where
  "promise_then2 this onf onr h =
     construct2 (\<lambda>c h1.
       (None, runHandlers2 this
          (h1\<lparr>promises := (promises h1)(this := (promises h1 this)
             \<lparr>handlers := handlers_of h1 this @
                [\<lparr>onfulfilled = onf, onrejected = onr, downstream = c\<rparr>]\<rparr>)\<rparr>))) h"

text \<open>\<^verbatim>\<open>catch\<close>, lines 502 to 509.\<close>

definition promise_catch2 :: "nat \<Rightarrow> callback \<Rightarrow> heap \<Rightarrow> nat \<times> heap" where
  "promise_catch2 this onr h = promise_then2 this NotCallable onr h"

text \<open>The \<^verbatim>\<open>resolve\<close> closure of instance \<open>p\<close>, lines 378 to 454, together with the
  calls a foreign \<^verbatim>\<open>then\<close> makes on the two guarded callbacks of lines 425 to 434
  (\<open>c\<close> is the \<^verbatim>\<open>called\<close> flag they share).\<close>

fun resolve2 :: "nat \<Rightarrow> val \<Rightarrow> heap \<Rightarrow> heap"
and then_calls2 :: "nat \<Rightarrow> nat \<Rightarrow> then_call list \<Rightarrow> heap \<Rightarrow> heap"
where
  "resolve2 p v h =
     (if state_of h p \<noteq> Pending then h
      else case v of
          VPromise q \<Rightarrow>
            if q = p then reject2 p (VTypeError ''A promise cannot be resolved with itself.'') h
            else snd (promise_then2 q (ResolveFn p) (RejectFn p) h)
        | VObject (ThenThrows e) \<Rightarrow> reject2 p e h
        | VObject (ThenCallable cs thrown) \<Rightarrow>
            (let c = next_called h;
                 h1 = h\<lparr>called := (called h)(c := False), next_called := Suc c\<rparr>;
                 h2 = then_calls2 p c cs h1
             in case thrown of
                  None \<Rightarrow> h2
                | Some e \<Rightarrow> if called h2 c then h2 else reject2 p e (set_called c h2))
        | _ \<Rightarrow> fulfill2 p v h)"
| "then_calls2 p c [] h = h"
| "then_calls2 p c (CallFulfill v # cs) h =
     then_calls2 p c cs (if called h c then h else resolve2 p v (set_called c h))"
| "then_calls2 p c (CallReject r # cs) h =
     then_calls2 p c cs (if called h c then h else reject2 p r (set_called c h))"

text \<open>The static \<^verbatim>\<open>resolve\<close> and \<^verbatim>\<open>reject\<close>, lines 601 to 617.\<close>

definition static_resolve2 :: "val \<Rightarrow> heap \<Rightarrow> nat \<times> heap" where
  "static_resolve2 v h =
     (case v of
        VPromise q \<Rightarrow> (q, h)
      | _ \<Rightarrow> construct2 (\<lambda>p h1. (None, resolve2 p v h1)) h)"

definition static_reject2 :: "val \<Rightarrow> heap \<Rightarrow> nat \<times> heap" where
  "static_reject2 reason h = construct2 (\<lambda>p h1. (None, reject2 p reason h1)) h"

text \<open>Calling \<^verbatim>\<open>onfinally\<close> with no argument. \<open>FinSettled\<close> is the callback of
  lines 685 to 690.\<close>

definition call_onfinally2 :: "onfinally \<Rightarrow> heap \<Rightarrow> outcome \<times> heap" where
  "call_onfinally2 f h =
     (case f of
        FinAbsent \<Rightarrow> (Return VUndefined, h)
      | FinUser out \<Rightarrow> (out, h)
      | FinSettled cx \<Rightarrow>
          (let h1 = increment (count cx) h
           in (Return VUndefined,
               if counters h1 (count cx) = total cx
               then resolve2 (outer cx) (VArray (results cx)) h1 else h1)))"

text \<open>The two closures of \<^verbatim>\<open>finally\<close>, lines 517 to 530.\<close>

definition passThroughFulfilled2 :: "onfinally \<Rightarrow> val \<Rightarrow> heap \<Rightarrow> outcome \<times> heap" where
  "passThroughFulfilled2 f v h =
     (case f of
        FinAbsent \<Rightarrow> (Return v, h)
      | _ \<Rightarrow>
        (case call_onfinally2 f h of
           (Throw e, h1) \<Rightarrow> (Throw e, h1)
         | (Return x, h1) \<Rightarrow>
             (let (q, h2) = static_resolve2 x h1;
                  (r, h3) = promise_then2 q (ConstFn v) NotCallable h2
              in (Return (VPromise r), h3))))"

definition passThroughRejected2 :: "onfinally \<Rightarrow> val \<Rightarrow> heap \<Rightarrow> outcome \<times> heap" where
  "passThroughRejected2 f reason h =
     (case call_onfinally2 f h of
        (Throw e, h1) \<Rightarrow> (Throw e, h1)
      | (Return x, h1) \<Rightarrow>
          (let (q, h2) = static_resolve2 x h1;
               (r, h3) = promise_then2 q (ThrowFn reason) NotCallable h2
           in (Return (VPromise r), h3)))"

text \<open>Calling a closure with one argument.\<close>

fun call_callback2 :: "callback \<Rightarrow> val \<Rightarrow> heap \<Rightarrow> outcome \<times> heap" where
  "call_callback2 NotCallable v h = (Throw (VTypeError ''not a function''), h)"
| "call_callback2 (UserFn f) v h = (f v, h)"
| "call_callback2 (ResolveFn p) v h = (Return VUndefined, resolve2 p v h)"
| "call_callback2 (RejectFn p) v h = (Return VUndefined, reject2 p v h)"
| "call_callback2 (GuardedResolve p c) v h =
     (Return VUndefined, if called h c then h else resolve2 p v (set_called c h))"
| "call_callback2 (GuardedReject p c) v h =
     (Return VUndefined, if called h c then h else reject2 p v (set_called c h))"
| "call_callback2 (PassThroughFulfilled f) v h = passThroughFulfilled2 f v h"
| "call_callback2 (PassThroughRejected f) v h = passThroughRejected2 f v h"
| "call_callback2 (ConstFn x) v h = (Return x, h)"
| "call_callback2 (ThrowFn r) v h = (Throw r, h)"
| "call_callback2 (AllThen cx i) v h =
     (let h1 = increment (count cx) h;
          h2 = store_at (results cx) i v h1
      in (Return VUndefined,
          if counters h2 (count cx) = total cx
          then resolve2 (outer cx) (VArray (results cx)) h2 else h2))"
| "call_callback2 (AllCatch p) v h = (Return VUndefined, reject2 p v h)"
| "call_callback2 (SettledThen a i) v h =
     (Return VUndefined,
      store_at a i (VRecord [(''status'', VStr ''fulfilled''), (''value'', v)]) h)"
| "call_callback2 (SettledCatch a i) v h =
     (Return VUndefined,
      store_at a i (VRecord [(''status'', VStr ''rejected''), (''reason'', v)]) h)"
| "call_callback2 (AnyCatch cx i) v h =
     (let h1 = increment (count cx) h;
          h2 = store_at (results cx) i v h1
      in (Return VUndefined,
          if counters h2 (count cx) = total cx
          then reject2 (outer cx)
                 (VAggregateError (array_values (arrays h2 (results cx)))
                    ''All promises rejected.'') h2
          else h2))"

text \<open>The microtask \<^verbatim>\<open>runHandlers\<close> queues for one handler, lines 553 to 591.\<close>

definition run_job2 :: "nat \<times> handler \<Rightarrow> heap \<Rightarrow> heap" where
  "run_job2 j h =
     (let this = fst j; hdl = snd j;
          h1 = (if state_of h this = Fulfilled then
                  (if \<not> is_function (onfulfilled hdl)
                   then resolve2 (downstream hdl) (result_of h this) h
                   else settle_with (downstream hdl)
                          (call_callback2 (onfulfilled hdl) (result_of h this)
                             (note_invoked (downstream hdl) h)))
                else h)
      in if state_of h1 this = Rejected then
           (if \<not> is_function (onrejected hdl)
            then reject2 (downstream hdl) (result_of h1 this) h1
            else settle_with (downstream hdl)
                   (call_callback2 (onrejected hdl) (result_of h1 this)
                      (note_invoked (downstream hdl) h1)))
         else h1)"

text \<open>One tick of the scheduler, for the jobs of the second class.\<close>

definition run_next2 :: "heap \<Rightarrow> heap" where
  "run_next2 h =
     (case queue h of
        [] \<Rightarrow> h
      | j # js \<Rightarrow> run_job2 j (h\<lparr>queue := js\<rparr>))"

fun ticks2 :: "nat \<Rightarrow> heap \<Rightarrow> heap" where
  "ticks2 0 h = h"
| "ticks2 (Suc n) h = ticks2 n (run_next2 h)"

text \<open>\<^verbatim>\<open>finally\<close>, lines 514 to 532.\<close>

definition promise_finally2 :: "nat \<Rightarrow> onfinally \<Rightarrow> heap \<Rightarrow> nat \<times> heap" where
  "promise_finally2 this f h =
     promise_then2 this (PassThroughFulfilled f) (PassThroughRejected f) h"

text \<open>The combinators, lines 622 to 745.\<close>

fun all_each2 :: "combinator \<Rightarrow> val list \<Rightarrow> nat \<Rightarrow> heap \<Rightarrow> heap" where
  "all_each2 cx [] i h = h"
| "all_each2 cx (v # vs) i h =
     (let (q, h1) = static_resolve2 v h;
          (r, h2) = promise_then2 q (AllThen cx i) NotCallable h1;
          (s, h3) = promise_catch2 r (AllCatch (outer cx)) h2
      in all_each2 cx vs (Suc i) h3)"

definition promise_all2 :: "val list \<Rightarrow> heap \<Rightarrow> nat \<times> heap" where
  "promise_all2 values h =
     (let (a, ha) = new_array h;
          (k, hk) = new_counter ha
      in construct2 (\<lambda>p h1.
           (None,
            if length values = 0
            then (let (e, h2) = new_array h1 in resolve2 p (VArray e) h2)
            else all_each2 \<lparr>outer = p, results = a, count = k, total = length values\<rparr>
                   values 0 h1)) hk)"

fun allSettled_each2 :: "combinator \<Rightarrow> val list \<Rightarrow> nat \<Rightarrow> heap \<Rightarrow> heap" where
  "allSettled_each2 cx [] i h = h"
| "allSettled_each2 cx (v # vs) i h =
     (let (q, h1) = static_resolve2 v h;
          (r, h2) = promise_then2 q (SettledThen (results cx) i) NotCallable h1;
          (s, h3) = promise_catch2 r (SettledCatch (results cx) i) h2;
          (t, h4) = promise_finally2 s (FinSettled cx) h3
      in allSettled_each2 cx vs (Suc i) h4)"

definition promise_allSettled2 :: "val list \<Rightarrow> heap \<Rightarrow> nat \<times> heap" where
  "promise_allSettled2 values h =
     (let (a, ha) = new_array h;
          (k, hk) = new_counter ha
      in construct2 (\<lambda>p h1.
           (None,
            if length values = 0
            then (let (e, h2) = new_array h1 in resolve2 p (VArray e) h2)
            else allSettled_each2
                   \<lparr>outer = p, results = a, count = k, total = length values\<rparr>
                   values 0 h1)) hk)"

fun race_each2 :: "nat \<Rightarrow> val list \<Rightarrow> heap \<Rightarrow> heap" where
  "race_each2 p [] h = h"
| "race_each2 p (v # vs) h =
     (let (q, h1) = static_resolve2 v h;
          (r, h2) = promise_then2 q (ResolveFn p) (RejectFn p) h1
      in race_each2 p vs h2)"

definition promise_race2 :: "val list \<Rightarrow> heap \<Rightarrow> nat \<times> heap" where
  "promise_race2 values h = construct2 (\<lambda>p h1. (None, race_each2 p values h1)) h"

fun any_each2 :: "combinator \<Rightarrow> val list \<Rightarrow> nat \<Rightarrow> heap \<Rightarrow> heap" where
  "any_each2 cx [] i h = h"
| "any_each2 cx (v # vs) i h =
     (let (q, h1) = static_resolve2 v h;
          (r, h2) = promise_then2 q (ResolveFn (outer cx)) NotCallable h1;
          (s, h3) = promise_catch2 r (AnyCatch cx i) h2
      in any_each2 cx vs (Suc i) h3)"

definition promise_any2 :: "val list \<Rightarrow> heap \<Rightarrow> nat \<times> heap" where
  "promise_any2 values h =
     (let (a, ha) = new_array h;
          (k, hk) = new_counter ha
      in construct2 (\<lambda>p h1.
           (None,
            if length values = 0
            then reject2 p (VAggregateError [] ''Values is empty.'') h1
            else any_each2 \<lparr>outer = p, results = a, count = k, total = length values\<rparr>
                   values 0 h1)) hk)"

text \<open>The calls of a caller's executor on the closures of the second class.\<close>

fun exec_calls2 :: "nat \<Rightarrow> exec_call list \<Rightarrow> heap \<Rightarrow> heap" where
  "exec_calls2 p [] h = h"
| "exec_calls2 p (ExResolve v # cs) h = exec_calls2 p cs (resolve2 p v h)"
| "exec_calls2 p (ExReject r # cs) h = exec_calls2 p cs (reject2 p r h)"

definition new_promise2 :: "exec_call list \<Rightarrow> val option \<Rightarrow> heap \<Rightarrow> nat \<times> heap" where
  "new_promise2 cs thrown h = construct2 (\<lambda>p h1. (thrown, exec_calls2 p cs h1)) h"

section \<open>Programs of calls\<close>

text \<open>What a caller can do with the module, one call at a time: construct an instance,
  call a closure it was handed (the \<^verbatim>\<open>resolve\<close> and \<^verbatim>\<open>reject\<close> of an executor,
  the guarded callbacks given to a \<^verbatim>\<open>then\<close>), call a method or a static
  combinator, or let the scheduler run one job. A sequence of such calls is run against
  either class.\<close>

datatype op =
    OpNew "exec_call list" "val option"
  | OpCall callback val
  | OpThen nat callback callback
  | OpCatch nat callback
  | OpFinally nat onfinally
  | OpResolve val
  | OpReject val
  | OpAll "val list"
  | OpAllSettled "val list"
  | OpRace "val list"
  | OpAny "val list"
  | OpTick

fun exec_op :: "op \<Rightarrow> heap \<Rightarrow> heap" where
  "exec_op (OpNew cs thrown) h = snd (new_promise cs thrown h)"
| "exec_op (OpCall f v) h = snd (call_callback f v h)"
| "exec_op (OpThen p f g) h = snd (promise_then p f g h)"
| "exec_op (OpCatch p g) h = snd (promise_catch p g h)"
| "exec_op (OpFinally p f) h = snd (promise_finally p f h)"
| "exec_op (OpResolve v) h = snd (static_resolve v h)"
| "exec_op (OpReject v) h = snd (static_reject v h)"
| "exec_op (OpAll vs) h = snd (promise_all vs h)"
| "exec_op (OpAllSettled vs) h = snd (promise_allSettled vs h)"
| "exec_op (OpRace vs) h = snd (promise_race vs h)"
| "exec_op (OpAny vs) h = snd (promise_any vs h)"
| "exec_op OpTick h = run_next h"

fun run :: "op list \<Rightarrow> heap \<Rightarrow> heap" where
  "run [] h = h"
| "run (x # xs) h = run xs (exec_op x h)"

fun exec_op2 :: "op \<Rightarrow> heap \<Rightarrow> heap" where
  "exec_op2 (OpNew cs thrown) h = snd (new_promise2 cs thrown h)"
| "exec_op2 (OpCall f v) h = snd (call_callback2 f v h)"
| "exec_op2 (OpThen p f g) h = snd (promise_then2 p f g h)"
| "exec_op2 (OpCatch p g) h = snd (promise_catch2 p g h)"
| "exec_op2 (OpFinally p f) h = snd (promise_finally2 p f h)"
| "exec_op2 (OpResolve v) h = snd (static_resolve2 v h)"
| "exec_op2 (OpReject v) h = snd (static_reject2 v h)"
| "exec_op2 (OpAll vs) h = snd (promise_all2 vs h)"
| "exec_op2 (OpAllSettled vs) h = snd (promise_allSettled2 vs h)"
| "exec_op2 (OpRace vs) h = snd (promise_race2 vs h)"
| "exec_op2 (OpAny vs) h = snd (promise_any2 vs h)"
| "exec_op2 OpTick h = run_next2 h"

fun run2 :: "op list \<Rightarrow> heap \<Rightarrow> heap" where
  "run2 [] h = h"
| "run2 (x # xs) h = run2 xs (exec_op2 x h)"

section \<open>Notions the properties are stated with\<close>


text \<open>A value exposes a callable \<^verbatim>\<open>then\<close> when it is an instance of the class or
  an object or function whose \<^verbatim>\<open>then\<close> member reads as a function; reading the
  member can also throw.\<close>

fun exposes_callable_then :: "val \<Rightarrow> bool" where
  "exposes_callable_then (VPromise q) = True"
| "exposes_callable_then (VObject (ThenCallable cs thrown)) = True"
| "exposes_callable_then v = False"

fun then_read_throws :: "val \<Rightarrow> bool" where
  "then_read_throws (VObject (ThenThrows e)) = True"
| "then_read_throws v = False"

text \<open>What a thenable adoption does when only the first call on the two guarded callbacks
  counts: the \<^verbatim>\<open>called\<close> flag is created and set by that call, every later call
  is dropped, and a throw of \<^verbatim>\<open>then\<close> counts only when no call came before
  it.\<close>

definition adoption_start :: "heap \<Rightarrow> heap" where
  "adoption_start h =
     set_called (next_called h)
       (h\<lparr>called := (called h)(next_called h := False), next_called := Suc (next_called h)\<rparr>)"

fun first_call :: "nat \<Rightarrow> then_call list \<Rightarrow> val option \<Rightarrow> heap \<Rightarrow> heap" where
  "first_call p (CallFulfill v # cs) thrown h = resolve p v (adoption_start h)"
| "first_call p (CallReject r # cs) thrown h = reject p r (adoption_start h)"
| "first_call p [] (Some e) h = reject p e (adoption_start h)"
| "first_call p [] None h =
     h\<lparr>called := (called h)(next_called h := False), next_called := Suc (next_called h)\<rparr>"

text \<open>The continuations of an instance that have not run yet, oldest first: its jobs in
  the microtask queue, then its handlers still waiting for settlement. Each is named by the
  instance downstream of its record.\<close>

definition waiting :: "heap \<Rightarrow> nat \<Rightarrow> nat list" where
  "waiting h p =
     map (\<lambda>j. downstream (snd j)) (filter (\<lambda>j. fst j = p) (queue h)) @
     map downstream (handlers_of h p)"

text \<open>A value the resolution procedure fulfils with: no instance of the class, no
  callable \<^verbatim>\<open>then\<close>, no throwing read of it.\<close>

definition plain :: "val \<Rightarrow> bool" where
  "plain v = (\<not> exposes_callable_then v \<and> \<not> then_read_throws v)"

text \<open>What \<^verbatim>\<open>finally\<close> leaves behind. \<open>pass_through\<close> is the closure of line 150
  or 154 to 156 for the outcome of instance \<open>p\<close>. \<open>adopting g r d t\<close>: instance \<open>d\<close>
  is pending and waits for instance \<open>r\<close> through the record that line 61 registered
  (\<open>t\<close> is the instance that call of \<^verbatim>\<open>then\<close> returned). \<open>finally_after\<close> is
  the store once \<^verbatim>\<open>finally\<close> was called on a settled instance and its job ran, for
  a callback with the given outcome; \<open>ends_as\<close> says that an instance is settled as
  given and no job is left.\<close>

definition pass_through :: "heap \<Rightarrow> nat \<Rightarrow> callback" where
  "pass_through h p =
     (if state_of h p = Fulfilled then ConstFn (result_of h p) else ThrowFn (result_of h p))"

definition adopting :: "heap \<Rightarrow> nat \<Rightarrow> nat \<Rightarrow> nat \<Rightarrow> bool" where
  "adopting g r d t =
     (promises g r = \<lparr>state = Pending, result = VUndefined,
        handlers = [\<lparr>onfulfilled = ResolveFn d, onrejected = RejectFn d, downstream = t\<rparr>]\<rparr> \<and>
      promises g d = new_instance \<and> promises g t = new_instance \<and>
      r \<noteq> d \<and> r \<noteq> t \<and> d \<noteq> t)"

definition finally_after :: "nat \<Rightarrow> outcome \<Rightarrow> heap \<Rightarrow> heap" where
  "finally_after p out h = run_next (snd (promise_finally p (FinUser out) h))"

definition ends_as :: "heap \<Rightarrow> nat \<Rightarrow> PromiseState \<Rightarrow> val \<Rightarrow> bool" where
  "ends_as g d s v = (state_of g d = s \<and> result_of g d = v \<and> queue g = [])"

text \<open>The steps every synchronous part of the class is made of.\<close>

definition alloc_instance :: "heap \<Rightarrow> heap" where
  "alloc_instance h =
     h\<lparr>promises := (promises h)(next_promise h := new_instance),
       next_promise := Suc (next_promise h)\<rparr>"

definition register :: "nat \<Rightarrow> handler \<Rightarrow> heap \<Rightarrow> heap" where
  "register this hdl h =
     runHandlers this
       (h\<lparr>promises := (promises h)(this := (promises h this)
           \<lparr>handlers := handlers_of h this @ [hdl]\<rparr>)\<rparr>)"

definition alloc_called :: "heap \<Rightarrow> heap" where
  "alloc_called h =
     h\<lparr>called := (called h)(next_called h := False), next_called := Suc (next_called h)\<rparr>"

inductive prim :: "heap \<Rightarrow> heap \<Rightarrow> bool" where
  p_reject: "prim h (reject p r h)"
| p_fulfill: "state_of h p = Pending \<Longrightarrow> prim h (fulfill p v h)"
| p_alloc: "prim h (alloc_instance h)"
| p_register: "prim h (register this hdl h)"
| p_alloc_called: "prim h (alloc_called h)"
| p_set_called: "prim h (set_called c h)"
| p_increment: "prim h (increment k h)"
| p_store_at: "prim h (store_at a i v h)"
| p_new_array: "prim h (snd (new_array h))"
| p_new_counter: "prim h (snd (new_counter h))"

definition sync :: "heap \<Rightarrow> heap \<Rightarrow> bool" where
  "sync = prim\<^sup>*\<^sup>*"

text \<open>The loop of \<^verbatim>\<open>all\<close> and of \<^verbatim>\<open>any\<close> on elements that are pending instances of
  the class: \<^verbatim>\<open>MyPromise.resolve\<close> returns the element itself, so the body registers
  one handler on the element and one on the instance \<^verbatim>\<open>then\<close> returned.\<close>

fun wire_each :: "(nat \<Rightarrow> callback) \<Rightarrow> (nat \<Rightarrow> callback) \<Rightarrow> nat list \<Rightarrow> nat \<Rightarrow> heap \<Rightarrow> heap" where
  "wire_each F G [] i h = h"
| "wire_each F G (q # qs) i h =
     wire_each F G qs (Suc i)
       (snd (promise_catch (next_promise h) (G i) (snd (promise_then q (F i) NotCallable h))))"

text \<open>A run of the elements of a combinator. Each element is an index into the list
  of the instances passed; an element fulfils with a value or rejects with a reason,
  and the two jobs this queues run before the next element settles.\<close>

datatype settlement = Fulfils nat val | Rejects nat val

fun element_of :: "settlement \<Rightarrow> nat" where
  "element_of (Fulfils i v) = i"
| "element_of (Rejects i e) = i"

fun value_of :: "settlement \<Rightarrow> val" where
  "value_of (Fulfils i v) = v"
| "value_of (Rejects i e) = e"

fun is_rejection :: "settlement \<Rightarrow> bool" where
  "is_rejection (Fulfils i v) = False"
| "is_rejection (Rejects i e) = True"

definition settle_element :: "nat list \<Rightarrow> settlement \<Rightarrow> heap \<Rightarrow> heap" where
  "settle_element qs ev h =
     (if element_of ev < length qs
      then ticks 2 (case ev of
                      Fulfils i v \<Rightarrow> resolve (qs ! i) v h
                    | Rejects i e \<Rightarrow> reject (qs ! i) e h)
      else h)"

fun play :: "nat list \<Rightarrow> settlement list \<Rightarrow> heap \<Rightarrow> heap" where
  "play qs [] h = h"
| "play qs (ev # evs) h = play qs evs (settle_element qs ev h)"

text \<open>The values the elements settled with, by the index of the element, whatever
  the order they settled in.\<close>

definition values_by_element :: "settlement list \<Rightarrow> nat \<Rightarrow> val option list" where
  "values_by_element evs n =
     map (\<lambda>i. map_option value_of (find (\<lambda>ev. element_of ev = i) evs)) [0..<n]"

text \<open>Reading an index of a JavaScript array that may not have it.\<close>

definition slot :: "val option list \<Rightarrow> nat \<Rightarrow> val option" where
  "slot xs i = (if i < length xs then xs ! i else None)"

text \<open>An element nothing has settled yet carries the handler of the loop, followed by
  the instance of \<^verbatim>\<open>then\<close> with the handler of \<^verbatim>\<open>catch\<close>.\<close>

definition wired :: "heap \<Rightarrow> nat \<Rightarrow> callback \<Rightarrow> callback \<Rightarrow> nat \<Rightarrow> bool" where
  "wired H q F G r =
     (state_of H q = Pending \<and>
      handlers_of H q = [\<lparr>onfulfilled = F, onrejected = NotCallable, downstream = r\<rparr>] \<and>
      promises H r = \<lparr>state = Pending, result = VUndefined,
         handlers = [\<lparr>onfulfilled = NotCallable, onrejected = G, downstream = Suc r\<rparr>]\<rparr> \<and>
      promises H (Suc r) = new_instance)"

text \<open>What holds of the store of \<^verbatim>\<open>all\<close>, and of \<^verbatim>\<open>any\<close>, after the elements of
  \<open>evs\<close> have settled in that order.\<close>

definition all_inv :: "nat list \<Rightarrow> combinator \<Rightarrow> settlement list \<Rightarrow> heap \<Rightarrow> bool" where
  "all_inv qs cx evs H =
     (queue H = [] \<and> next_promise H = Suc (outer cx + 2 * length qs) \<and>
      (\<forall>i<length qs. i \<notin> element_of ` set evs \<longrightarrow>
         wired H (qs ! i) (AllThen cx i) (AllCatch (outer cx)) (Suc (outer cx + 2 * i))) \<and>
      counters H (count cx) = length (filter (\<lambda>ev. \<not> is_rejection ev) evs) \<and>
      length (arrays H (results cx)) \<le> length qs \<and>
      (\<forall>i. slot (arrays H (results cx)) i =
         (case find (\<lambda>ev. element_of ev = i) evs of
            Some (Fulfils j v) \<Rightarrow> Some v
          | _ \<Rightarrow> None)) \<and>
      (case find is_rejection evs of
         Some ev \<Rightarrow> state_of H (outer cx) = Rejected \<and> result_of H (outer cx) = value_of ev
       | None \<Rightarrow>
           if length evs = length qs
           then state_of H (outer cx) = Fulfilled \<and>
                result_of H (outer cx) = VArray (results cx)
           else promises H (outer cx) = new_instance))"

definition any_inv :: "nat list \<Rightarrow> combinator \<Rightarrow> settlement list \<Rightarrow> heap \<Rightarrow> bool" where
  "any_inv qs cx evs H =
     (queue H = [] \<and> next_promise H = Suc (outer cx + 2 * length qs) \<and>
      (\<forall>i<length qs. i \<notin> element_of ` set evs \<longrightarrow>
         wired H (qs ! i) (ResolveFn (outer cx)) (AnyCatch cx i) (Suc (outer cx + 2 * i))) \<and>
      counters H (count cx) = length (filter is_rejection evs) \<and>
      length (arrays H (results cx)) \<le> length qs \<and>
      (\<forall>i. slot (arrays H (results cx)) i =
         (case find (\<lambda>ev. element_of ev = i) evs of
            Some (Rejects j e) \<Rightarrow> Some e
          | _ \<Rightarrow> None)) \<and>
      (case find (\<lambda>ev. \<not> is_rejection ev) evs of
         Some ev \<Rightarrow> state_of H (outer cx) = Fulfilled \<and> result_of H (outer cx) = value_of ev
       | None \<Rightarrow>
           if length evs = length qs
           then state_of H (outer cx) = Rejected \<and>
                result_of H (outer cx) =
                  VAggregateError (array_values (arrays H (results cx)))
                    ''All promises rejected.''
           else promises H (outer cx) = new_instance))"

section \<open>Settling\<close>

lemmas heap_defs = state_of_def result_of_def handlers_of_def settle_def

lemma resolve_eq: "resolve p v h =
     (if state_of h p \<noteq> Pending then h
      else case v of
          VPromise q \<Rightarrow>
            if q = p then reject p (VTypeError ''A promise cannot be resolved with itself.'') h
            else snd (promise_then q (ResolveFn p) (RejectFn p) h)
        | VObject (ThenThrows e) \<Rightarrow> reject p e h
        | VObject (ThenCallable cs thrown) \<Rightarrow>
            (let c = next_called h;
                 h1 = h\<lparr>called := (called h)(c := False), next_called := Suc c\<rparr>;
                 h2 = then_calls p c cs h1
             in case thrown of
                  None \<Rightarrow> h2
                | Some e \<Rightarrow> if called h2 c then h2 else reject p e (set_called c h2))
        | _ \<Rightarrow> fulfill p v h)"
  by (rule resolve.simps)

declare resolve.simps [simp del]

lemmas eval_defs = heap_defs runHandlers_def reject_def fulfill_def construct_def
  promise_then_def promise_catch_def set_called_def static_resolve_def static_reject_def
  new_promise_def empty_heap_def new_instance_def Let_def resolve_eq

lemma reject_settled: "state_of h p \<noteq> Pending \<Longrightarrow> reject p r h = h"
  by (simp add: reject_def)

lemma state_reject: "state_of (reject p r h) q =
  (if q = p \<and> state_of h p = Pending then Rejected else state_of h q)"
  by (simp add: reject_def runHandlers_def heap_defs)

lemma result_reject: "result_of (reject p r h) q =
  (if q = p \<and> state_of h p = Pending then r else result_of h q)"
  by (simp add: reject_def runHandlers_def heap_defs)

lemma state_fulfill: "state_of (fulfill p v h) q = (if q = p then Fulfilled else state_of h q)"
  by (simp add: fulfill_def runHandlers_def heap_defs)

lemma result_fulfill: "result_of (fulfill p v h) q = (if q = p then v else result_of h q)"
  by (simp add: fulfill_def runHandlers_def heap_defs)





lemma resolve_plain: "state_of h p = Pending \<Longrightarrow> \<not> exposes_callable_then v \<Longrightarrow>
   \<not> then_read_throws v \<Longrightarrow> resolve p v h = fulfill p v h"
  by (cases v rule: exposes_callable_then.cases) (simp_all add: resolve_eq)

text \<open>
  Claim C4, as amended. For a pending instance and a value that is not an instance of the
  class, whose \<^verbatim>\<open>then\<close> member is not callable and can be read without a throw,
  \<^verbatim>\<open>resolve(v)\<close> fulfils the instance with exactly \<open>v\<close>.
\<close>

theorem resolve_plain_value:
  assumes "state_of h p = Pending" "\<not> exposes_callable_then v" "\<not> then_read_throws v"
  shows "state_of (resolve p v h) p = Fulfilled \<and> result_of (resolve p v h) p = v"
  using assms by (simp add: resolve_plain state_fulfill result_fulfill)

theorem resolve_plain_value_witness:
  "state_of (snd (new_promise [] None empty_heap)) 0 = Pending \<and>
   \<not> exposes_callable_then (VObject ThenNotCallable) \<and>
   \<not> then_read_throws (VObject ThenNotCallable) \<and>
   state_of (resolve 0 (VObject ThenNotCallable) (snd (new_promise [] None empty_heap))) 0
     = Fulfilled \<and>
   result_of (resolve 0 (VObject ThenNotCallable) (snd (new_promise [] None empty_heap))) 0
     = VObject ThenNotCallable"
proof -
  have a: "state_of (snd (new_promise [] None empty_heap)) 0 = Pending"
    by (simp add: eval_defs)
  have b: "\<not> exposes_callable_then (VObject ThenNotCallable)" by simp
  have c: "\<not> then_read_throws (VObject ThenNotCallable)" by simp
  show ?thesis using a b c resolve_plain_value [OF a b c] by simp
qed

text \<open>Claim C4 as stated fails for an object whose \<^verbatim>\<open>then\<close> cannot be read: the
  getter throws, and lines 72 to 74 reject the instance with what it threw.\<close>

theorem resolve_throwing_then_getter:
  "state_of (snd (new_promise [] None empty_heap)) 0 = Pending \<and>
   \<not> exposes_callable_then (VObject (ThenThrows (VStr ''boom''))) \<and>
   state_of (resolve 0 (VObject (ThenThrows (VStr ''boom'')))
      (snd (new_promise [] None empty_heap))) 0 = Rejected \<and>
   result_of (resolve 0 (VObject (ThenThrows (VStr ''boom'')))
      (snd (new_promise [] None empty_heap))) 0 = VStr ''boom''"
  by (simp add: eval_defs)

lemma next_called_reject: "next_called (reject p r h) = next_called h"
  by (simp add: reject_def runHandlers_def heap_defs)
lemma called_reject: "called (reject p r h) = called h"
  by (simp add: reject_def runHandlers_def heap_defs)
lemma next_called_fulfill: "next_called (fulfill p r h) = next_called h"
  by (simp add: fulfill_def runHandlers_def heap_defs)
lemma called_fulfill: "called (fulfill p r h) = called h"
  by (simp add: fulfill_def runHandlers_def heap_defs)
lemma next_called_then: "next_called (snd (promise_then q f g h)) = next_called h"
  by (simp add: promise_then_def construct_def runHandlers_def heap_defs Let_def)
lemma called_then: "called (snd (promise_then q f g h)) = called h"
  by (simp add: promise_then_def construct_def runHandlers_def heap_defs Let_def)

lemma flags_kept:
  "next_called h \<le> next_called (resolve p v h) \<and>
     (\<forall>c < next_called h. called h c \<longrightarrow> called (resolve p v h) c)"
  "next_called h \<le> next_called (then_calls p k cs h) \<and>
     (\<forall>c < next_called h. called h c \<longrightarrow> called (then_calls p k cs h) c)"
proof (induction p v h and p k cs h rule: resolve_then_calls.induct)
  case (1 p v h)
  show ?case
  proof (cases "state_of h p = Pending")
    case False
    then show ?thesis by (simp add: resolve_eq)
  next
    case True
    show ?thesis
    proof (cases v)
      case (VObject tm)
      show ?thesis
      proof (cases tm)
        case (ThenCallable cs thrown)
        let ?c = "next_called h"
        let ?h1 = "h\<lparr>called := (called h)(?c := False), next_called := Suc ?c\<rparr>"
        let ?h2 = "then_calls p ?c cs ?h1"
        from "1.IH"[OF _ VObject ThenCallable refl refl] True
        have ih: "next_called ?h1 \<le> next_called ?h2"
            "\<And>c. c < next_called ?h1 \<Longrightarrow> called ?h1 c \<Longrightarrow> called ?h2 c"
          by auto
        have r: "resolve p v h = (case thrown of None \<Rightarrow> ?h2
            | Some e \<Rightarrow> if called ?h2 ?c then ?h2 else reject p e (set_called ?c ?h2))"
          using True VObject ThenCallable by (simp add: resolve_eq Let_def)
        show ?thesis using ih unfolding r
          by (auto split: option.splits simp: next_called_reject called_reject set_called_def)
      qed (use True VObject in \<open>simp_all add: resolve_eq next_called_reject called_reject
             next_called_fulfill called_fulfill\<close>)
    qed (use True in \<open>simp_all add: resolve_eq next_called_reject called_reject
             next_called_fulfill called_fulfill next_called_then called_then\<close>)
  qed
next
  case (2 p c h)
  then show ?case by simp
next
  case (3 p c v cs h)
  then show ?case
    apply (cases "called h c")
     apply simp
    apply (simp add: set_called_def)
    done
next
  case (4 p c r cs h)
  then show ?case
    apply (cases "called h c")
     apply simp
    apply (simp add: set_called_def next_called_reject called_reject)
    done
qed



section \<open>Thenable adoption\<close>

lemma then_calls_called: "called h c \<Longrightarrow> then_calls p c cs h = h"
proof (induction cs)
  case (Cons a cs)
  then show ?case by (cases a) simp_all
qed simp

lemma called_kept_resolve:
  "c < next_called h \<Longrightarrow> called h c \<Longrightarrow> called (resolve p v h) c"
  using flags_kept(1) by blast

lemma adoption_first_call:
  assumes "state_of h p = Pending"
  shows "resolve p (VObject (ThenCallable cs thrown)) h = first_call p cs thrown h"
proof -
  let ?c = "next_called h"
  let ?h1 = "h\<lparr>called := (called h)(?c := False), next_called := Suc ?c\<rparr>"
  have r: "resolve p (VObject (ThenCallable cs thrown)) h =
      (case thrown of None \<Rightarrow> then_calls p ?c cs ?h1
       | Some e \<Rightarrow> if called (then_calls p ?c cs ?h1) ?c then then_calls p ?c cs ?h1
                  else reject p e (set_called ?c (then_calls p ?c cs ?h1)))"
    using assms by (simp add: resolve_eq Let_def)
  have nc: "\<not> called ?h1 ?c" by simp
  have s: "set_called ?c ?h1 = adoption_start h" by (simp add: adoption_start_def)
  have cs: "called (adoption_start h) ?c" "?c < next_called (adoption_start h)"
    by (simp_all add: adoption_start_def set_called_def)
  show ?thesis
  proof (cases cs)
    case Nil
    then show ?thesis using r s by (cases thrown) simp_all
  next
    case (Cons a rest)
    show ?thesis
    proof (cases a)
      case (CallFulfill v)
      let ?h2 = "resolve p v (adoption_start h)"
      have k: "called ?h2 ?c" using cs by (rule_tac called_kept_resolve) simp_all
      have "then_calls p ?c cs ?h1 = then_calls p ?c rest ?h2"
        using Cons CallFulfill nc s by simp
      also have "\<dots> = ?h2" using k by (rule then_calls_called)
      finally show ?thesis using r k Cons CallFulfill by (cases thrown) simp_all
    next
      case (CallReject x)
      let ?h2 = "reject p x (adoption_start h)"
      have k: "called ?h2 ?c" using cs by (simp add: called_reject)
      have "then_calls p ?c cs ?h1 = then_calls p ?c rest ?h2"
        using Cons CallReject nc s by simp
      also have "\<dots> = ?h2" using k by (rule then_calls_called)
      finally show ?thesis using r k Cons CallReject by (cases thrown) simp_all
    qed
  qed
qed




text \<open>
  Claim C1 at an input where the code departs from it. The instance is resolved with a
  thenable whose \<^verbatim>\<open>then\<close> keeps the callbacks for later and returns; line 99 returns
  with the state still pending and nothing records that the instance is now bound to the
  thenable. A second call \<^verbatim>\<open>resolve(2)\<close> therefore fulfils the instance with 2, and
  when the thenable later reports 1 through its guarded callback, line 51 drops it.
\<close>

theorem adoption_does_not_lock_in:
  "state_of (resolve 0 (VObject (ThenCallable [] None))
      (snd (new_promise [] None empty_heap))) 0 = Pending \<and>
   state_of (resolve 0 (VNum 2) (resolve 0 (VObject (ThenCallable [] None))
      (snd (new_promise [] None empty_heap)))) 0 = Fulfilled \<and>
   result_of (snd (call_callback (GuardedResolve 0 0) (VNum 1)
      (resolve 0 (VNum 2) (resolve 0 (VObject (ThenCallable [] None))
      (snd (new_promise [] None empty_heap)))))) 0 = VNum 2"
  by (simp add: eval_defs)

section \<open>Synchronous steps\<close>

lemma sync_refl [simp, intro]: "sync h h"
  by (simp add: sync_def)

lemma sync_trans [trans]: "sync a b \<Longrightarrow> sync b c \<Longrightarrow> sync a c"
  by (simp add: sync_def)

lemma sync_prim: "prim h h' \<Longrightarrow> sync h h'"
  by (simp add: sync_def)

lemma sync_step: "sync a b \<Longrightarrow> prim b c \<Longrightarrow> sync a c"
  by (simp add: sync_def)

lemma sync_induct [consumes 1, case_names base step]:
  assumes "sync a b" "P a" "\<And>x y. P x \<Longrightarrow> prim x y \<Longrightarrow> P y"
  shows "P b"
  using assms unfolding sync_def by (induction rule: rtranclp_induct) auto

lemma sync_two: "prim a b \<Longrightarrow> prim b c \<Longrightarrow> sync a c"
  by (blast intro: sync_prim sync_trans)

lemma promise_then_eq:
  "promise_then this onf onr h =
     (next_promise h,
      register this \<lparr>onfulfilled = onf, onrejected = onr, downstream = next_promise h\<rparr>
        (alloc_instance h))"
  by (simp add: promise_then_def construct_def register_def alloc_instance_def Let_def
        handlers_of_def)

lemma sync_then: "sync h (snd (promise_then this onf onr h))"
proof -
  have "prim h (alloc_instance h)" by (rule p_alloc)
  moreover have "prim (alloc_instance h)
     (register this \<lparr>onfulfilled = onf, onrejected = onr, downstream = next_promise h\<rparr>
        (alloc_instance h))"
    by (rule p_register)
  ultimately show ?thesis
    by (simp add: promise_then_eq sync_two)
qed

lemma sync_resolve:
  "sync h (resolve p v h)"
  "sync h (then_calls p c cs h)"
proof (induction p v h and p c cs h rule: resolve_then_calls.induct)
  case (1 p v h)
  show ?case
  proof (cases "state_of h p = Pending")
    case False
    then show ?thesis by (simp add: resolve_eq)
  next
    case True
    show ?thesis
    proof (cases v)
      case (VObject tm)
      show ?thesis
      proof (cases tm)
        case (ThenCallable cs thrown)
        let ?c = "next_called h"
        let ?h1 = "h\<lparr>called := (called h)(?c := False), next_called := Suc ?c\<rparr>"
        let ?h2 = "then_calls p ?c cs ?h1"
        have a: "sync h ?h1"
          using p_alloc_called[of h] by (simp add: alloc_called_def sync_prim)
        have "sync ?h1 ?h2"
          using "1.IH"[OF _ VObject ThenCallable refl refl] True by simp
        with a have b: "sync h ?h2" by (rule sync_trans)
        have r: "resolve p v h = (case thrown of None \<Rightarrow> ?h2
            | Some e \<Rightarrow> if called ?h2 ?c then ?h2 else reject p e (set_called ?c ?h2))"
          using True VObject ThenCallable by (simp add: resolve_eq Let_def)
        show ?thesis
        proof (cases thrown)
          case None
          then show ?thesis using r b by simp
        next
          case (Some e)
          have "sync ?h2 (reject p e (set_called ?c ?h2))"
            by (rule sync_two[OF p_set_called p_reject])
          with b have "sync h (reject p e (set_called ?c ?h2))" by (rule sync_trans)
          then show ?thesis using r b Some by simp
        qed
      qed (use True VObject in \<open>simp_all add: resolve_eq sync_prim p_reject p_fulfill\<close>)
    next
      case (VPromise q)
      then show ?thesis using True
        by (simp add: resolve_eq sync_prim p_reject sync_then)
    qed (use True in \<open>simp_all add: resolve_eq sync_prim p_fulfill\<close>)
  qed
next
  case (2 p c h)
  then show ?case by simp
next
  case (3 p c v cs h)
  show ?case
  proof (cases "called h c")
    case True
    then show ?thesis using 3 by simp
  next
    case False
    let ?h1 = "resolve p v (set_called c h)"
    have a: "sync h (set_called c h)" by (simp add: sync_prim p_set_called)
    have b: "sync (set_called c h) ?h1" using 3(1)[OF False] .
    have "sync ?h1 (then_calls p c cs ?h1)" using 3(2) False by simp
    with a b show ?thesis using False by (simp) (blast intro: sync_trans)
  qed
next
  case (4 p c r cs h)
  show ?case
  proof (cases "called h c")
    case True
    then show ?thesis using 4 by simp
  next
    case False
    let ?h1 = "reject p r (set_called c h)"
    have a: "sync h ?h1" by (rule sync_two[OF p_set_called p_reject])
    have "sync ?h1 (then_calls p c cs ?h1)" using 4 False by simp
    with a show ?thesis using False by (simp) (blast intro: sync_trans)
  qed
qed

lemma sync_construct:
  assumes "\<And>p g. sync g (snd (ex p g))"
  shows "sync h (snd (construct ex h))"
proof -
  let ?h1 = "alloc_instance h"
  have a: "sync h ?h1" by (simp add: sync_prim p_alloc)
  have b: "sync ?h1 (snd (ex (next_promise h) ?h1))" by (rule assms)
  obtain t h2 where e: "ex (next_promise h) ?h1 = (t, h2)" by (cases "ex (next_promise h) ?h1")
  have c: "sync h h2" using a b e by (auto intro: sync_trans)
  have "snd (construct ex h) = (case t of None \<Rightarrow> h2 | Some x \<Rightarrow> reject (next_promise h) x h2)"
    using e by (simp add: construct_def Let_def alloc_instance_def split: option.splits)
  then show ?thesis using c by (auto split: option.splits intro: sync_step p_reject)
qed

lemma sync_static_resolve: "sync h (snd (static_resolve v h))"
  unfolding static_resolve_def
  by (cases v) (simp_all add: sync_construct sync_resolve)

lemma sync_static_reject: "sync h (snd (static_reject v h))"
  unfolding static_reject_def by (simp add: sync_construct sync_prim p_reject)

lemma sync_call_onfinally: "sync h (snd (call_onfinally f h))"
proof (cases f)
  case (FinSettled cx)
  have "sync h (increment (count cx) h)" by (simp add: sync_prim p_increment)
  then show ?thesis using FinSettled
    by (auto simp: call_onfinally_def Let_def intro: sync_trans sync_resolve)
qed (simp_all add: call_onfinally_def)

lemma sync_pass_tail:
  "sync h (snd (let (q, h2) = static_resolve x h;
                  (r, h3) = promise_then q f g h2
              in (Return (VPromise r), h3)))"
proof -
  obtain q h2 where a: "static_resolve x h = (q, h2)" by (cases "static_resolve x h")
  have "sync h h2" using sync_static_resolve[of h x] a by simp
  moreover have "sync h2 (snd (promise_then q f g h2))" by (rule sync_then)
  ultimately show ?thesis using a
    by (auto simp: split_def Let_def intro: sync_trans)
qed

lemma sync_passThroughRejected: "sync h (snd (passThroughRejected f v h))"
proof -
  obtain out h1 where a: "call_onfinally f h = (out, h1)" by (cases "call_onfinally f h")
  have b: "sync h h1" using sync_call_onfinally[of h f] a by simp
  show ?thesis
  proof (cases out)
    case (Return x)
    have "sync h1 (snd (let (q, h2) = static_resolve x h1;
                  (r, h3) = promise_then q (ThrowFn v) NotCallable h2
              in (Return (VPromise r), h3)))" by (rule sync_pass_tail)
    with b show ?thesis using a Return
      by (simp add: passThroughRejected_def) (blast intro: sync_trans)
  next
    case (Throw e)
    then show ?thesis using a b by (simp add: passThroughRejected_def)
  qed
qed

lemma sync_passThroughFulfilled: "sync h (snd (passThroughFulfilled f v h))"
proof (cases "f = FinAbsent")
  case True
  then show ?thesis by (simp add: passThroughFulfilled_def)
next
  case False
  obtain out h1 where a: "call_onfinally f h = (out, h1)" by (cases "call_onfinally f h")
  have b: "sync h h1" using sync_call_onfinally[of h f] a by simp
  have e: "passThroughFulfilled f v h = (case call_onfinally f h of
           (Throw e, h1) \<Rightarrow> (Throw e, h1)
         | (Return x, h1) \<Rightarrow>
             (let (q, h2) = static_resolve x h1;
                  (r, h3) = promise_then q (ConstFn v) NotCallable h2
              in (Return (VPromise r), h3)))"
    using False by (cases f) (simp_all add: passThroughFulfilled_def)
  show ?thesis
  proof (cases out)
    case (Return x)
    have "sync h1 (snd (let (q, h2) = static_resolve x h1;
                  (r, h3) = promise_then q (ConstFn v) NotCallable h2
              in (Return (VPromise r), h3)))" by (rule sync_pass_tail)
    with b show ?thesis using a Return
      by (simp add: e) (blast intro: sync_trans)
  next
    case (Throw e)
    then show ?thesis using a b by (simp add: e)
  qed
qed

lemma sync_call_callback: "sync h (snd (call_callback f v h))"
proof (cases f)
  case (AllThen cx i)
  have "sync h (store_at (results cx) i v (increment (count cx) h))"
    by (rule sync_two[OF p_increment p_store_at])
  then show ?thesis using AllThen
    by (auto simp: Let_def intro: sync_trans sync_resolve)
next
  case (AnyCatch cx i)
  have "sync h (store_at (results cx) i v (increment (count cx) h))"
    by (rule sync_two[OF p_increment p_store_at])
  then show ?thesis using AnyCatch
    by (auto simp: Let_def intro: sync_step p_reject)
next
  case (GuardedResolve p c)
  have "sync h (resolve p v (set_called c h))"
    by (blast intro: sync_trans sync_prim p_set_called sync_resolve)
  then show ?thesis using GuardedResolve by simp
next
  case (GuardedReject p c)
  then show ?thesis by (simp add: sync_two[OF p_set_called p_reject])
qed (simp_all add: sync_resolve sync_prim p_reject p_store_at
       sync_passThroughFulfilled sync_passThroughRejected)

lemma sync_settle_with: "sync h (settle_with d (out, h))"
  by (cases out) (simp_all add: settle_with_def sync_resolve sync_prim p_reject)


lemma filter_Pair: "filter (\<lambda>j. fst j = q) (map (Pair p) hs) = (if p = q then map (Pair p) hs else [])"
  by (induction hs) auto

lemma waiting_runHandlers: "waiting (runHandlers p h) q = waiting h q"
  by (simp add: waiting_def runHandlers_def heap_defs filter_Pair comp_def)

lemma waiting_settle: "waiting (settle p s v h) q = waiting h q"
  by (simp add: waiting_def heap_defs)

lemma invoked_runHandlers: "invoked (runHandlers p h) = invoked h"
  by (simp add: runHandlers_def)

lemma next_promise_runHandlers: "next_promise (runHandlers p h) = next_promise h"
  by (simp add: runHandlers_def)

lemma waiting_register:
  "waiting (register this hdl h) q =
     (if q = this then waiting h q @ [downstream hdl] else waiting h q)"
  by (simp add: register_def waiting_runHandlers) (simp add: waiting_def heap_defs)

lemma waiting_alloc: "q < next_promise h \<Longrightarrow> waiting (alloc_instance h) q = waiting h q"
  by (simp add: alloc_instance_def waiting_def heap_defs)

lemma prim_sync_ok:
  assumes "prim x y"
  shows "invoked y = invoked x \<and> next_promise x \<le> next_promise y \<and>
         (\<forall>p<next_promise x. prefix (waiting x p) (waiting y p))"
  using assms
proof cases
  case (p_reject p r)
  then show ?thesis
    by (simp add: reject_def waiting_runHandlers waiting_settle invoked_runHandlers
          next_promise_runHandlers) (simp add: settle_def)
next
  case (p_fulfill p v)
  then show ?thesis
    by (simp add: fulfill_def waiting_runHandlers waiting_settle invoked_runHandlers
          next_promise_runHandlers) (simp add: settle_def)
next
  case p_alloc
  then show ?thesis by (simp add: waiting_alloc) (simp add: alloc_instance_def)
next
  case (p_register this hdl)
  then show ?thesis
    by (simp add: waiting_register) (simp add: register_def runHandlers_def)
next
  case p_alloc_called
  then show ?thesis by (simp add: alloc_called_def waiting_def heap_defs)
next
  case (p_set_called c)
  then show ?thesis by (simp add: set_called_def waiting_def heap_defs)
next
  case (p_increment k)
  then show ?thesis by (simp add: increment_def waiting_def heap_defs)
next
  case (p_store_at a i v)
  then show ?thesis by (simp add: store_at_def waiting_def heap_defs)
next
  case p_new_array
  then show ?thesis by (simp add: new_array_def waiting_def heap_defs)
next
  case p_new_counter
  then show ?thesis by (simp add: new_counter_def waiting_def heap_defs)
qed

lemma sync_sync_ok:
  assumes "sync a b"
  shows "invoked b = invoked a \<and> next_promise a \<le> next_promise b \<and>
         (\<forall>p<next_promise a. prefix (waiting a p) (waiting b p))"
  using assms
proof (induction rule: sync_induct)
  case base
  then show ?case by simp
next
  case (step x y)
  from prim_sync_ok[OF step(2)] step(1) show ?case
    by (auto intro: prefix_order.trans)
qed

lemma prim_keeps:
  assumes "prim x y"
  shows "next_promise x \<le> next_promise y \<and>
         (\<forall>p<next_promise x. state_of x p \<noteq> Pending \<longrightarrow>
            state_of y p = state_of x p \<and> result_of y p = result_of x p)"
  using assms
proof cases
  case (p_reject p r)
  then show ?thesis by (simp add: state_reject result_reject)
     (simp add: reject_def runHandlers_def heap_defs)
next
  case (p_fulfill p v)
  then show ?thesis by (auto simp add: state_fulfill result_fulfill)
     (simp add: fulfill_def runHandlers_def heap_defs)
next
  case p_alloc
  then show ?thesis by (simp add: alloc_instance_def heap_defs)
next
  case (p_register this hdl)
  then show ?thesis by (simp add: register_def runHandlers_def heap_defs)
next
  case p_alloc_called
  then show ?thesis by (simp add: alloc_called_def heap_defs)
next
  case (p_set_called c)
  then show ?thesis by (simp add: set_called_def heap_defs)
next
  case (p_increment k)
  then show ?thesis by (simp add: increment_def heap_defs)
next
  case (p_store_at a i v)
  then show ?thesis by (simp add: store_at_def heap_defs)
next
  case p_new_array
  then show ?thesis by (simp add: new_array_def heap_defs)
next
  case p_new_counter
  then show ?thesis by (simp add: new_counter_def heap_defs)
qed

lemma sync_keeps:
  assumes "sync a b"
  shows "next_promise a \<le> next_promise b \<and>
         (\<forall>p<next_promise a. state_of a p \<noteq> Pending \<longrightarrow>
            state_of b p = state_of a p \<and> result_of b p = result_of a p)"
  using assms
proof (induction rule: sync_induct)
  case base
  then show ?case by simp
next
  case (step x y)
  from prim_keeps[OF step(2)] step(1) show ?case
    by (metis le_trans less_le_trans)
qed

section \<open>Jobs and their order\<close>

lemma note_invoked_simps [simp]:
  "promises (note_invoked d h) = promises h"
  "next_promise (note_invoked d h) = next_promise h"
  "queue (note_invoked d h) = queue h"
  "invoked (note_invoked d h) = invoked h @ [d]"
  "state_of (note_invoked d h) p = state_of h p"
  "result_of (note_invoked d h) p = result_of h p"
  "waiting (note_invoked d h) p = waiting h p"
  by (simp_all add: note_invoked_def heap_defs waiting_def)

lemma sync_job_fulfilled:
  "sync h (resolve d v h)"
  "sync (note_invoked d h) (settle_with d (call_callback f v (note_invoked d h)))"
proof -
  show "sync h (resolve d v h)" by (rule sync_resolve)
  obtain out g where a: "call_callback f v (note_invoked d h) = (out, g)"
    by (cases "call_callback f v (note_invoked d h)")
  have "sync (note_invoked d h) g" using sync_call_callback[of "note_invoked d h" f v] a by simp
  moreover have "sync g (settle_with d (out, g))" by (rule sync_settle_with)
  ultimately show "sync (note_invoked d h) (settle_with d (call_callback f v (note_invoked d h)))"
    using a by (auto intro: sync_trans)
qed

lemma run_job_rejected:
  assumes "state_of h this = Rejected"
  shows "run_job (this, hdl) h =
     (if \<not> is_function (onrejected hdl) then reject (downstream hdl) (result_of h this) h
      else settle_with (downstream hdl)
             (call_callback (onrejected hdl) (result_of h this)
                (note_invoked (downstream hdl) h)))"
  using assms by (simp add: run_job_def)

lemma run_job_pending:
  assumes "state_of h this = Pending"
  shows "run_job (this, hdl) h = h"
  using assms by (simp add: run_job_def)

lemma run_job_fulfilled:
  assumes "this < next_promise h" "state_of h this = Fulfilled"
  shows "run_job (this, hdl) h =
     (if \<not> is_function (onfulfilled hdl) then resolve (downstream hdl) (result_of h this) h
      else settle_with (downstream hdl)
             (call_callback (onfulfilled hdl) (result_of h this)
                (note_invoked (downstream hdl) h)))"
proof -
  let ?d = "downstream hdl"
  let ?h1 = "if \<not> is_function (onfulfilled hdl) then resolve ?d (result_of h this) h
      else settle_with ?d (call_callback (onfulfilled hdl) (result_of h this)
                (note_invoked ?d h))"
  have "state_of ?h1 this = Fulfilled"
  proof (cases "is_function (onfulfilled hdl)")
    case False
    then show ?thesis using sync_keeps[OF sync_job_fulfilled(1), of h ?d "result_of h this"] assms
      by auto
  next
    case True
    then show ?thesis
      using sync_keeps[OF sync_job_fulfilled(2), where d1 = ?d and h1 = h and f1 = "onfulfilled hdl" and v1 = "result_of h this"] assms
      by auto
  qed
  then show ?thesis using assms by (simp add: run_job_def Let_def)
qed

lemma handlers_reset_idem: "handlers r = [] \<Longrightarrow> r\<lparr>handlers := []\<rparr> = r"
  by (cases r) simp

lemma then_on_settled:
  assumes "src < next_promise h" "state_of h src \<noteq> Pending" "handlers_of h src = []"
  shows "snd (promise_then src onf onr h) =
     (alloc_instance h)\<lparr>queue := queue h @
        [(src, \<lparr>onfulfilled = onf, onrejected = onr, downstream = next_promise h\<rparr>)]\<rparr>"
  using assms
  by (simp add: promise_then_eq register_def runHandlers_def alloc_instance_def heap_defs
        handlers_reset_idem fun_upd_idem)

lemma fst_then [simp]: "fst (promise_then src onf onr h) = next_promise h"
  by (simp add: promise_then_eq)




lemma waiting_reject: "waiting (reject q r h) p = waiting h p"
  by (simp add: reject_def waiting_runHandlers waiting_settle)

lemma waiting_pop:
  "queue h = (s, hdl) # js \<Longrightarrow>
     waiting h p = (if s = p then [downstream hdl] else []) @ waiting (h\<lparr>queue := js\<rparr>) p"
  by (simp add: waiting_def heap_defs)

lemma sync_run_job:
  assumes "s < next_promise h"
  shows "\<exists>g. (g = h \<or> g = note_invoked (downstream hdl) h) \<and> sync g (run_job (s, hdl) h)"
proof (cases "state_of h s")
  case Pending
  then show ?thesis by (auto simp: run_job_pending)
next
  case Fulfilled
  show ?thesis
  proof (cases "is_function (onfulfilled hdl)")
    case True
    then show ?thesis using run_job_fulfilled[OF assms Fulfilled, where hdl = hdl]
        sync_job_fulfilled(2)[where d = "downstream hdl" and h = h and f = "onfulfilled hdl" and v = "result_of h s"] by auto
  next
    case False
    then show ?thesis using run_job_fulfilled[OF assms Fulfilled, where hdl = hdl]
        sync_job_fulfilled(1)[where d = "downstream hdl" and h = h and v = "result_of h s"] by auto
  qed
next
  case Rejected
  show ?thesis
  proof (cases "is_function (onrejected hdl)")
    case True
    then show ?thesis using run_job_rejected[OF Rejected, where hdl = hdl]
        sync_job_fulfilled(2)[where d = "downstream hdl" and h = h and f = "onrejected hdl" and v = "result_of h s"] by auto
  next
    case False
    then show ?thesis using run_job_rejected[OF Rejected, where hdl = hdl]
      by (auto intro: sync_prim p_reject)
  qed
qed

text \<open>
  Claim C2. For an instance \<open>p\<close> of the store: registering a continuation on it
  (\<^verbatim>\<open>then\<close>, and \<^verbatim>\<open>catch\<close> and \<^verbatim>\<open>finally\<close>, which are calls of
  \<^verbatim>\<open>then\<close>) calls no continuation body and puts the new continuation last among
  those of \<open>p\<close> that wait; a call of any \<^verbatim>\<open>resolve\<close> or \<^verbatim>\<open>reject\<close>
  closure, also the one that settles \<open>p\<close>, calls no body and keeps those that wait in
  their order. Only a tick of the scheduler calls a body: it takes the job at the head of
  the queue, which is the oldest waiting continuation of its instance, calls at most that
  one body, and leaves the others waiting in their order.
\<close>

theorem continuations_run_later_in_order:
  assumes "p < next_promise h"
  shows "invoked (snd (promise_then p onf onr h)) = invoked h \<and>
    waiting (snd (promise_then p onf onr h)) p =
      waiting h p @ [fst (promise_then p onf onr h)] \<and>
    promise_catch p onr h = promise_then p NotCallable onr h \<and>
    promise_finally p f h =
      promise_then p (PassThroughFulfilled f) (PassThroughRejected f) h \<and>
    invoked (resolve q v h) = invoked h \<and>
    prefix (waiting h p) (waiting (resolve q v h) p) \<and>
    invoked (reject q r h) = invoked h \<and>
    waiting (reject q r h) p = waiting h p \<and>
    (queue h = (s, hdl) # js \<and> s < next_promise h \<longrightarrow>
       waiting h p = (if s = p then [downstream hdl] else []) @ waiting (h\<lparr>queue := js\<rparr>) p \<and>
       prefix (waiting (h\<lparr>queue := js\<rparr>) p) (waiting (run_next h) p) \<and>
       (invoked (run_next h) = invoked h \<or>
        invoked (run_next h) = invoked h @ [downstream hdl]))"
proof -
  have 1: "invoked (snd (promise_then p onf onr h)) = invoked h"
    using sync_sync_ok[OF sync_then[where h = h and this = p and onf = onf and onr = onr]] by simp
  have 2: "waiting (snd (promise_then p onf onr h)) p =
      waiting h p @ [fst (promise_then p onf onr h)]"
    using assms by (simp add: promise_then_eq waiting_register waiting_alloc)
  have 3: "invoked (resolve q v h) = invoked h \<and>
    prefix (waiting h p) (waiting (resolve q v h) p)"
    using sync_sync_ok[OF sync_resolve(1)[where h = h and p = q and v = v]] assms by simp
  have 4: "invoked (reject q r h) = invoked h"
    using sync_sync_ok[OF sync_prim[OF p_reject[where h = h and p = q and r = r]]] by simp
  have 5: "waiting h p = (if s = p then [downstream hdl] else []) @ waiting (h\<lparr>queue := js\<rparr>) p \<and>
       prefix (waiting (h\<lparr>queue := js\<rparr>) p) (waiting (run_next h) p) \<and>
       (invoked (run_next h) = invoked h \<or>
        invoked (run_next h) = invoked h @ [downstream hdl])"
    if q: "queue h = (s, hdl) # js" and s: "s < next_promise h"
  proof -
    let ?h0 = "h\<lparr>queue := js\<rparr>"
    have r: "run_next h = run_job (s, hdl) ?h0" using q by (simp add: run_next_def)
    have "s < next_promise ?h0" using s by simp
    from sync_run_job[OF this, of hdl] obtain g where
      g: "g = ?h0 \<or> g = note_invoked (downstream hdl) ?h0" "sync g (run_job (s, hdl) ?h0)"
      by blast
    have pg: "p < next_promise g" "waiting g p = waiting ?h0 p" using g(1) assms by auto
    from sync_sync_ok[OF g(2)] pg
    have "invoked (run_next h) = invoked g" "prefix (waiting ?h0 p) (waiting (run_next h) p)"
      by (auto simp: r)
    moreover have "invoked g = invoked h \<or> invoked g = invoked h @ [downstream hdl]"
      using g(1) by auto
    ultimately show ?thesis using waiting_pop[OF q, of p] by auto
  qed
  show ?thesis using 1 2 3 4 5
    by (simp add: waiting_reject promise_catch_def promise_finally_def)
qed


theorem continuations_run_later_in_order_witness:
  "0 < next_promise (snd (promise_then 0 (UserFn Return) NotCallable
         (snd (static_resolve (VNum 1) empty_heap)))) \<and>
   queue (snd (promise_then 0 (UserFn Return) NotCallable
         (snd (static_resolve (VNum 1) empty_heap)))) =
     [(0, \<lparr>onfulfilled = UserFn Return, onrejected = NotCallable, downstream = 1\<rparr>)] \<and>
   waiting (snd (promise_then 0 (UserFn Return) NotCallable
         (snd (static_resolve (VNum 1) empty_heap)))) 0 = [1] \<and>
   invoked (snd (promise_then 0 (UserFn Return) NotCallable
         (snd (static_resolve (VNum 1) empty_heap)))) = [] \<and>
   waiting (snd (promise_then 0 NotCallable NotCallable
      (snd (promise_then 0 (UserFn Return) NotCallable
         (snd (static_resolve (VNum 1) empty_heap)))))) 0 = [1, 2] \<and>
   invoked (run_next (snd (promise_then 0 (UserFn Return) NotCallable
         (snd (static_resolve (VNum 1) empty_heap))))) = [1]"
proof -
  let ?H = "snd (promise_then 0 (UserFn Return) NotCallable
         (snd (static_resolve (VNum 1) empty_heap)))"
  let ?hdl = "\<lparr>onfulfilled = UserFn Return, onrejected = NotCallable, downstream = 1\<rparr>"
  note ev = eval_defs run_next_def run_job_def settle_with_def note_invoked_def waiting_def
  have a: "0 < next_promise ?H" by (simp add: ev)
  have b: "queue ?H = [(0, ?hdl)]" by (simp add: ev)
  show ?thesis
    using a b continuations_run_later_in_order [OF a, where onf = NotCallable
        and onr = NotCallable and s = 0 and hdl = ?hdl and js = "[]"]
    by (simp add: ev)
qed

section \<open>Observing the store\<close>

lemma static_resolve_plain:
  "plain x \<Longrightarrow> static_resolve x h =
     (next_promise h, fulfill (next_promise h) x (alloc_instance h))"
proof -
  assume a: "plain x"
  have s: "state_of (alloc_instance h) (next_promise h) = Pending"
    by (simp add: alloc_instance_def heap_defs new_instance_def)
  have "static_resolve x h = construct (\<lambda>p h1. (None, resolve p x h1)) h"
    using a by (cases x) (simp_all add: static_resolve_def plain_def)
  also have "\<dots> = (next_promise h, resolve (next_promise h) x (alloc_instance h))"
    by (simp add: construct_def alloc_instance_def Let_def)
  finally show ?thesis using resolve_plain[OF s, of x] a by (simp add: plain_def)
qed


lemma ticks_Suc: "ticks (Suc n) h = ticks n (run_next h)" by simp

lemma resolve_instance:
  "state_of h p = Pending \<Longrightarrow> q \<noteq> p \<Longrightarrow>
     resolve p (VPromise q) h = snd (promise_then q (ResolveFn p) (RejectFn p) h)"
  by (simp add: resolve_eq)

lemma obs_alloc [simp]:
  "promises (alloc_instance h) = (promises h)(next_promise h := new_instance)"
  "next_promise (alloc_instance h) = Suc (next_promise h)"
  "queue (alloc_instance h) = queue h"
  "called (alloc_instance h) = called h"
  "next_called (alloc_instance h) = next_called h"
  "invoked (alloc_instance h) = invoked h"
  by (simp_all add: alloc_instance_def)

lemma obs_register_frame [simp]:
  "next_promise (register this hdl h) = next_promise h"
  "called (register this hdl h) = called h"
  "next_called (register this hdl h) = next_called h"
  "invoked (register this hdl h) = invoked h"
  by (simp_all add: register_def runHandlers_def)

lemma obs_register_pending:
  "state (promises h this) = Pending \<Longrightarrow>
     promises (register this hdl h) =
       (promises h)(this := (promises h this)\<lparr>handlers := handlers (promises h this) @ [hdl]\<rparr>)"
  "state (promises h this) = Pending \<Longrightarrow> queue (register this hdl h) = queue h"
  by (simp_all add: register_def runHandlers_def heap_defs)

lemma obs_register_settled:
  "state (promises h this) \<noteq> Pending \<Longrightarrow>
     promises (register this hdl h) =
       (promises h)(this := (promises h this)\<lparr>handlers := []\<rparr>)"
  "state (promises h this) \<noteq> Pending \<Longrightarrow>
     queue (register this hdl h) =
       queue h @ map (Pair this) (handlers (promises h this) @ [hdl])"
  by (simp_all add: register_def runHandlers_def heap_defs)

lemma promise_upd_all [simp]:
  "(r::promise)\<lparr>state := s, result := v, handlers := hs\<rparr> =
     \<lparr>state = s, result = v, handlers = hs\<rparr>"
  by (cases r) simp

lemma obs_fulfill [simp]:
  "promises (fulfill p v h) =
     (promises h)(p := \<lparr>state = Fulfilled, result = v, handlers = []\<rparr>)"
  "queue (fulfill p v h) = queue h @ map (Pair p) (handlers (promises h p))"
  "next_promise (fulfill p v h) = next_promise h"
  "called (fulfill p v h) = called h"
  "next_called (fulfill p v h) = next_called h"
  "invoked (fulfill p v h) = invoked h"
  by (simp_all add: fulfill_def runHandlers_def heap_defs)

lemma obs_reject_frame [simp]:
  "next_promise (reject p v h) = next_promise h"
  "called (reject p v h) = called h"
  "next_called (reject p v h) = next_called h"
  "invoked (reject p v h) = invoked h"
  by (simp_all add: reject_def runHandlers_def heap_defs)

lemma obs_reject_pending:
  "state (promises h p) = Pending \<Longrightarrow>
   promises (reject p v h) =
     (promises h)(p := \<lparr>state = Rejected, result = v, handlers = []\<rparr>)"
  "state (promises h p) = Pending \<Longrightarrow>
   queue (reject p v h) = queue h @ map (Pair p) (handlers (promises h p))"
  by (simp_all add: reject_def runHandlers_def heap_defs)

lemma obs_queue_upd [simp]:
  "state_of (h\<lparr>queue := x\<rparr>) p = state_of h p"
  "result_of (h\<lparr>queue := x\<rparr>) p = result_of h p"
  "handlers_of (h\<lparr>queue := x\<rparr>) p = handlers_of h p"
  by (simp_all add: heap_defs)

lemmas obs = heap_defs promise_then_eq obs_register_pending obs_register_settled
  obs_reject_pending new_instance_def

lemma finally_queued:
  assumes "p < next_promise h" "queue h = []" "handlers_of h p = []" "state_of h p \<noteq> Pending"
  shows "snd (promise_finally p f h) = (alloc_instance h)\<lparr>queue :=
        [(p, \<lparr>onfulfilled = PassThroughFulfilled f, onrejected = PassThroughRejected f,
              downstream = next_promise h\<rparr>)]\<rparr>"
  using assms by (simp add: promise_finally_def then_on_settled)

text \<open>The store after the job of a finally record ran, when the callback returned x.\<close>

lemma finally_job:
  assumes "p < next_promise h" "queue h = []" "handlers_of h p = []" "state_of h p \<noteq> Pending"
  shows "run_next (snd (promise_finally p (FinUser (Return x)) h)) =
     settle_with (next_promise h)
       (let (q, h2) = static_resolve x
                (note_invoked (next_promise h) ((alloc_instance h)\<lparr>queue := []\<rparr>));
            (r, h3) = promise_then q (pass_through h p) NotCallable h2
        in (Return (VPromise r), h3))"
proof -
  let ?g0 = "(alloc_instance h)\<lparr>queue := []\<rparr>"
  let ?hdl = "\<lparr>onfulfilled = PassThroughFulfilled (FinUser (Return x)),
       onrejected = PassThroughRejected (FinUser (Return x)), downstream = next_promise h\<rparr>"
  have r: "run_next (snd (promise_finally p (FinUser (Return x)) h)) = run_job (p, ?hdl) ?g0"
    using assms by (simp add: finally_queued run_next_def)
  have p0: "p < next_promise ?g0" "state_of ?g0 p = state_of h p"
     "result_of ?g0 p = result_of h p"
    using assms(1) by (simp_all add: heap_defs)
  show ?thesis
  proof (cases "state_of h p")
    case Pending
    then show ?thesis using assms by simp
  next
    case Fulfilled
    then show ?thesis unfolding r
      using run_job_fulfilled[OF p0(1), where hdl = ?hdl] p0
      by (simp add: passThroughFulfilled_def call_onfinally_def pass_through_def)
  next
    case Rejected
    then show ?thesis unfolding r
      using run_job_rejected[where h = ?g0 and this = p and hdl = ?hdl] p0
      by (simp add: passThroughRejected_def call_onfinally_def pass_through_def)
  qed
qed

lemma finally_tick_pending:
  assumes "p < next_promise h" "queue h = []" "handlers_of h p = []" "state_of h p \<noteq> Pending"
    "q < next_promise h" "state_of h q = Pending" "handlers_of h q = []"
  shows "queue (run_next (snd (promise_finally p (FinUser (Return (VPromise q))) h))) = [] \<and>
         state_of (run_next (snd (promise_finally p (FinUser (Return (VPromise q))) h))) q
           = Pending \<and>
         handlers_of (run_next (snd (promise_finally p (FinUser (Return (VPromise q))) h))) q
           = [\<lparr>onfulfilled = pass_through h p, onrejected = NotCallable,
               downstream = Suc (next_promise h)\<rparr>] \<and>
         adopting (run_next (snd (promise_finally p (FinUser (Return (VPromise q))) h)))
           (Suc (next_promise h)) (next_promise h) (Suc (Suc (next_promise h)))"
proof -
  let ?n = "next_promise h"
  define g0 where "g0 = note_invoked ?n ((alloc_instance h)\<lparr>queue := []\<rparr>)"
  define g3 where "g3 = snd (promise_then q (pass_through h p) NotCallable g0)"
  have ne: "q \<noteq> ?n" using assms by auto
  have g0: "promises g0 = (promises h)(?n := new_instance)" "queue g0 = []"
    "next_promise g0 = Suc ?n"
    by (simp_all add: g0_def)
  have g3: "promises g3 = (promises h)(?n := new_instance, Suc ?n := new_instance,
       q := (promises h q)\<lparr>handlers := [\<lparr>onfulfilled = pass_through h p,
              onrejected = NotCallable, downstream = Suc ?n\<rparr>]\<rparr>)"
     "queue g3 = []" "next_promise g3 = Suc (Suc ?n)"
    using assms ne by (simp_all add: g3_def obs g0)
  have e: "run_next (snd (promise_finally p (FinUser (Return (VPromise q))) h)) =
      snd (promise_then (Suc ?n) (ResolveFn ?n) (RejectFn ?n) g3)"
    using assms(1-4) g0 g3 ne
    by (simp add: finally_job static_resolve_def g0_def[symmetric] split_def
          settle_with_def g3_def[symmetric] resolve_instance heap_defs new_instance_def)
  show ?thesis unfolding e using assms ne g3
    by (simp add: obs adopting_def)
qed


lemma static_resolve_thenable:
  "static_resolve (VObject (ThenCallable cs thrown)) h =
     (next_promise h, first_call (next_promise h) cs thrown (alloc_instance h))"
proof -
  have s: "state_of (alloc_instance h) (next_promise h) = Pending"
    by (simp add: heap_defs new_instance_def)
  show ?thesis
    by (simp add: static_resolve_def construct_def Let_def adoption_first_call[OF s]
          alloc_instance_def[symmetric])
qed

lemma obs_adoption_start [simp]:
  "promises (adoption_start h) = promises h"
  "next_promise (adoption_start h) = next_promise h"
  "queue (adoption_start h) = queue h"
  "called (adoption_start h) = (called h)(next_called h := True)"
  "next_called (adoption_start h) = Suc (next_called h)"
  by (simp_all add: adoption_start_def set_called_def)

lemma obs_note_invoked [simp]:
  "called (note_invoked d h) = called h"
  "next_called (note_invoked d h) = next_called h"
  by (simp_all add: note_invoked_def)

text \<open>The job of a finally record when the value its callback returned is wrapped in a new
  instance (it is no instance of the class).\<close>

lemma finally_tick_fresh:
  fixes h :: heap and P :: promise and p :: nat
  defines "n \<equiv> next_promise h"
  defines "hdl \<equiv> \<lparr>onfulfilled = pass_through h p, onrejected = NotCallable,
               downstream = Suc (Suc (next_promise h))\<rparr>"
  assumes b: "p < next_promise h" "queue h = []" "handlers_of h p = []"
      "state_of h p \<noteq> Pending"
    and s: "static_resolve x (note_invoked n ((alloc_instance h)\<lparr>queue := []\<rparr>)) = (Suc n, g2)"
    and g2: "promises g2 = (promises h)(n := new_instance, Suc n := P)" "queue g2 = []"
       "next_promise g2 = Suc (Suc n)" "handlers P = []"
  shows "promises (run_next (snd (promise_finally p (FinUser (Return x)) h))) =
     (promises h)(n := new_instance,
        Suc n := (if state P = Pending then P\<lparr>handlers := [hdl]\<rparr> else P),
        Suc (Suc (Suc n)) := new_instance,
        Suc (Suc n) := \<lparr>state = Pending, result = VUndefined,
           handlers = [\<lparr>onfulfilled = ResolveFn n, onrejected = RejectFn n,
              downstream = Suc (Suc (Suc n))\<rparr>]\<rparr>)"
    and "queue (run_next (snd (promise_finally p (FinUser (Return x)) h))) =
      (if state P = Pending then [] else [(Suc n, hdl)])"
    and "called (run_next (snd (promise_finally p (FinUser (Return x)) h))) = called g2"
proof -
  define g3 where "g3 = snd (promise_then (Suc n) (pass_through h p) NotCallable g2)"
  have g3: "promises g3 = (promises h)(n := new_instance,
        Suc n := (if state P = Pending then P\<lparr>handlers := [hdl]\<rparr> else P),
        Suc (Suc n) := new_instance)"
     "queue g3 = (if state P = Pending then [] else [(Suc n, hdl)])"
     "next_promise g3 = Suc (Suc (Suc n))" "called g3 = called g2"
    using g2 by (auto simp add: g3_def obs hdl_def n_def handlers_reset_idem fun_eq_iff)
  have e: "run_next (snd (promise_finally p (FinUser (Return x)) h)) =
      snd (promise_then (Suc (Suc n)) (ResolveFn n) (RejectFn n) g3)"
    using b g2 g3
    by (simp add: finally_job n_def[symmetric] s split_def settle_with_def
          g3_def[symmetric] resolve_instance heap_defs new_instance_def)
  show "promises (run_next (snd (promise_finally p (FinUser (Return x)) h))) =
     (promises h)(n := new_instance,
        Suc n := (if state P = Pending then P\<lparr>handlers := [hdl]\<rparr> else P),
        Suc (Suc (Suc n)) := new_instance,
        Suc (Suc n) := \<lparr>state = Pending, result = VUndefined,
           handlers = [\<lparr>onfulfilled = ResolveFn n, onrejected = RejectFn n,
              downstream = Suc (Suc (Suc n))\<rparr>]\<rparr>)"
    unfolding e using g3 by (auto simp add: obs fun_eq_iff)
  show "queue (run_next (snd (promise_finally p (FinUser (Return x)) h))) =
      (if state P = Pending then [] else [(Suc n, hdl)])"
    unfolding e using g3 by (simp add: obs)
  show "called (run_next (snd (promise_finally p (FinUser (Return x)) h))) = called g2"
    unfolding e using g3 by (simp add: obs)
qed


lemmas step_defs = run_next_def run_job_def Let_def settle_with_def promise_then_eq
  register_def alloc_instance_def runHandlers_def fulfill_def reject_def note_invoked_def
  heap_defs new_instance_def set_called_def

lemma chain_const:
  assumes "queue g = [(q, \<lparr>onfulfilled = ConstFn v, onrejected = NotCallable, downstream = r\<rparr>)]"
    "state_of g q = Fulfilled" "adopting g r d t" "q \<noteq> r" "q \<noteq> d" "q \<noteq> t" "plain v"
  shows "ends_as (ticks 2 g) d Fulfilled v"
  using assms unfolding adopting_def plain_def ends_as_def
  by (simp add: numeral_2_eq_2 step_defs resolve_plain)

lemma chain_throw:
  assumes "queue g = [(q, \<lparr>onfulfilled = ThrowFn e, onrejected = NotCallable, downstream = r\<rparr>)]"
    "state_of g q = Fulfilled" "adopting g r d t" "q \<noteq> r" "q \<noteq> d" "q \<noteq> t"
  shows "ends_as (ticks 2 g) d Rejected e"
  using assms unfolding adopting_def plain_def ends_as_def
  by (simp add: numeral_2_eq_2 step_defs resolve_plain)

lemma chain_rejected:
  assumes "queue g = [(q, \<lparr>onfulfilled = cb, onrejected = NotCallable, downstream = r\<rparr>)]"
    "state_of g q = Rejected" "result_of g q = e"
    "adopting g r d t" "q \<noteq> r" "q \<noteq> d" "q \<noteq> t"
  shows "ends_as (ticks 2 g) d Rejected e"
  using assms unfolding adopting_def plain_def ends_as_def
  by (simp add: numeral_2_eq_2 step_defs resolve_plain)

lemma pass_through_outcome:
  assumes "state_of h p \<noteq> Pending" "state_of h p = Fulfilled \<longrightarrow> plain (result_of h p)"
    "queue g = [(q, \<lparr>onfulfilled = pass_through h p, onrejected = NotCallable,
                     downstream = r\<rparr>)]"
    "state_of g q = Fulfilled" "adopting g r d t" "q \<noteq> r" "q \<noteq> d" "q \<noteq> t"
  shows "ends_as (ticks 2 g) d (state_of h p) (result_of h p)"
proof (cases "state_of h p")
  case Pending
  then show ?thesis using assms by simp
next
  case Fulfilled
  then show ?thesis
    using chain_const[of g q "result_of h p" r d t] assms
    by (simp add: pass_through_def)
next
  case Rejected
  then show ?thesis
    using chain_throw[of g q "result_of h p" r d t] assms
    by (simp add: pass_through_def)
qed

lemma finally_fresh_settled:
  fixes h :: heap and P :: promise and p :: nat
  assumes b: "p < next_promise h" "queue h = []" "handlers_of h p = []"
      "state_of h p \<noteq> Pending" "state_of h p = Fulfilled \<longrightarrow> plain (result_of h p)"
    and s: "static_resolve x (note_invoked (next_promise h) ((alloc_instance h)\<lparr>queue := []\<rparr>))
            = (Suc (next_promise h), g2)"
    and g2: "promises g2 = (promises h)(next_promise h := new_instance,
               Suc (next_promise h) := P)" "queue g2 = []"
       "next_promise g2 = Suc (Suc (next_promise h))" "handlers P = []"
  shows "state P = Fulfilled \<Longrightarrow>
           ends_as (ticks 2 (finally_after p (Return x) h)) (next_promise h)
             (state_of h p) (result_of h p)"
    and "state P = Rejected \<Longrightarrow>
           ends_as (ticks 2 (finally_after p (Return x) h)) (next_promise h)
             Rejected (result P)"
    and "state P = Pending \<Longrightarrow>
           state_of (finally_after p (Return x) h) (next_promise h) = Pending \<and>
           queue (finally_after p (Return x) h) = [] \<and>
           state_of (finally_after p (Return x) h) (Suc (next_promise h)) = Pending \<and>
           handlers_of (finally_after p (Return x) h) (Suc (next_promise h)) =
             [\<lparr>onfulfilled = pass_through h p, onrejected = NotCallable,
               downstream = Suc (Suc (next_promise h))\<rparr>] \<and>
           called (finally_after p (Return x) h) = called g2 \<and>
           adopting (finally_after p (Return x) h) (Suc (Suc (next_promise h)))
             (next_promise h) (Suc (Suc (Suc (next_promise h))))"
proof -
  let ?n = "next_promise h"
  let ?G = "finally_after p (Return x) h"
  note t = finally_tick_fresh[OF b(1-4) s g2, folded finally_after_def]
  have ad: "adopting ?G (Suc (Suc ?n)) ?n (Suc (Suc (Suc ?n)))"
    by (simp add: adopting_def t)
  {
    assume f: "state P = Fulfilled"
    have "queue ?G = [(Suc ?n, \<lparr>onfulfilled = pass_through h p, onrejected = NotCallable,
               downstream = Suc (Suc ?n)\<rparr>)]" "state_of ?G (Suc ?n) = Fulfilled"
      using f by (simp_all add: t heap_defs)
    from pass_through_outcome[OF b(4,5) this ad]
    show "ends_as (ticks 2 ?G) ?n (state_of h p) (result_of h p)" by simp
  }
  {
    assume f: "state P = Rejected"
    have "queue ?G = [(Suc ?n, \<lparr>onfulfilled = pass_through h p, onrejected = NotCallable,
               downstream = Suc (Suc ?n)\<rparr>)]" "state_of ?G (Suc ?n) = Rejected"
       "result_of ?G (Suc ?n) = result P"
      using f by (simp_all add: t heap_defs)
    from chain_rejected[OF this ad]
    show "ends_as (ticks 2 ?G) ?n Rejected (result P)" by simp
  }
  {
    assume f: "state P = Pending"
    show "state_of ?G ?n = Pending \<and> queue ?G = [] \<and> state_of ?G (Suc ?n) = Pending \<and>
           handlers_of ?G (Suc ?n) =
             [\<lparr>onfulfilled = pass_through h p, onrejected = NotCallable,
               downstream = Suc (Suc ?n)\<rparr>] \<and>
           called ?G = called g2 \<and>
           adopting ?G (Suc (Suc ?n)) ?n (Suc (Suc (Suc ?n)))"
      using f ad by (simp add: t heap_defs new_instance_def)
  }
qed


lemma resolve_waiting:
  assumes "queue g = []" "state_of g q = Pending" "handlers_of g q = [hdl]"
    "adopting g r d t" "q \<noteq> r" "q \<noteq> d" "q \<noteq> t" "plain y"
  shows "queue (resolve q y g) = [(q, hdl)] \<and> state_of (resolve q y g) q = Fulfilled \<and>
         adopting (resolve q y g) r d t"
  using assms unfolding adopting_def plain_def
  by (simp add: resolve_plain heap_defs)

lemma reject_waiting:
  assumes "queue g = []" "state_of g q = Pending" "handlers_of g q = [hdl]"
    "adopting g r d t" "q \<noteq> r" "q \<noteq> d" "q \<noteq> t"
  shows "queue (reject q e g) = [(q, hdl)] \<and> state_of (reject q e g) q = Rejected \<and>
         result_of (reject q e g) q = e \<and> adopting (reject q e g) r d t"
  using assms unfolding adopting_def
  by (simp add: obs_reject_pending heap_defs)

lemma obs_set_called [simp]:
  "promises (set_called c h) = promises h"
  "queue (set_called c h) = queue h"
  "next_promise (set_called c h) = next_promise h"
  "state_of (set_called c h) p = state_of h p"
  "handlers_of (set_called c h) p = handlers_of h p"
  "adopting (set_called c h) r d t = adopting h r d t"
  by (simp_all add: set_called_def heap_defs adopting_def)

lemma waiting_then_settled:
  assumes w: "queue g = []" "state_of g q = Pending"
      "handlers_of g q = [\<lparr>onfulfilled = pass_through h p, onrejected = NotCallable,
             downstream = r\<rparr>]"
      "adopting g r d t" "q \<noteq> r" "q \<noteq> d" "q \<noteq> t"
    and b: "state_of h p \<noteq> Pending" "state_of h p = Fulfilled \<longrightarrow> plain (result_of h p)"
  shows "plain y \<Longrightarrow> ends_as (ticks 2 (resolve q y g)) d (state_of h p) (result_of h p)"
    and "ends_as (ticks 2 (reject q e g)) d Rejected e"
    and "plain y \<Longrightarrow> \<not> called g c \<Longrightarrow>
           ends_as (ticks 2 (snd (call_callback (GuardedResolve q c) y g))) d
             (state_of h p) (result_of h p)"
    and "\<not> called g c \<Longrightarrow>
           ends_as (ticks 2 (snd (call_callback (GuardedReject q c) e g))) d Rejected e"
proof -
  have sc: "queue (set_called c g) = []" "state_of (set_called c g) q = Pending"
      "handlers_of (set_called c g) q = [\<lparr>onfulfilled = pass_through h p,
          onrejected = NotCallable, downstream = r\<rparr>]"
      "adopting (set_called c g) r d t"
    using w by simp_all
  {
    assume y: "plain y"
    from resolve_waiting[OF w y]
    show "ends_as (ticks 2 (resolve q y g)) d (state_of h p) (result_of h p)"
      using pass_through_outcome[OF b, of "resolve q y g" q r d t] w by simp
    assume "\<not> called g c"
    then have "snd (call_callback (GuardedResolve q c) y g) = resolve q y (set_called c g)"
      by simp
    moreover from resolve_waiting[OF sc w(5-7) y]
    have "ends_as (ticks 2 (resolve q y (set_called c g))) d (state_of h p) (result_of h p)"
      using pass_through_outcome[OF b, of "resolve q y (set_called c g)" q r d t] w by simp
    ultimately show "ends_as (ticks 2 (snd (call_callback (GuardedResolve q c) y g))) d
             (state_of h p) (result_of h p)" by simp
  }
  from reject_waiting[OF w, of e]
  show "ends_as (ticks 2 (reject q e g)) d Rejected e"
    using chain_rejected[of "reject q e g" q "pass_through h p" r e d t] w by simp
  {
    assume "\<not> called g c"
    then have "snd (call_callback (GuardedReject q c) e g) = reject q e (set_called c g)"
      by simp
    moreover from reject_waiting[OF sc w(5-7), of e]
    have "ends_as (ticks 2 (reject q e (set_called c g))) d Rejected e"
      using chain_rejected[of "reject q e (set_called c g)" q "pass_through h p" r e d t] w
      by simp
    ultimately show "ends_as (ticks 2 (snd (call_callback (GuardedReject q c) e g))) d
        Rejected e" by simp
  }
qed

lemma finally_throws:
  assumes "p < next_promise h" "queue h = []" "handlers_of h p = []" "state_of h p \<noteq> Pending"
  shows "ends_as (finally_after p (Throw e) h) (next_promise h) Rejected e"
  using assms
  by (cases "state_of h p")
     (simp_all add: finally_after_def ends_as_def finally_queued step_defs
        passThroughFulfilled_def passThroughRejected_def call_onfinally_def)

lemma wrap_plain:
  assumes "plain x" "next_promise g0 = Suc n" "promises g0 = (promises h)(n := new_instance)"
    "queue g0 = []"
  shows "static_resolve x g0 = (Suc n, fulfill (Suc n) x (alloc_instance g0))"
    and "promises (fulfill (Suc n) x (alloc_instance g0)) =
           (promises h)(n := new_instance,
              Suc n := \<lparr>state = Fulfilled, result = x, handlers = []\<rparr>)"
    and "queue (fulfill (Suc n) x (alloc_instance g0)) = []"
    and "next_promise (fulfill (Suc n) x (alloc_instance g0)) = Suc (Suc n)"
  using assms by (simp_all add: static_resolve_plain new_instance_def)

lemma wrap_thenable:
  assumes "next_promise g0 = Suc n" "promises g0 = (promises h)(n := new_instance)"
    "queue g0 = []"
  shows "static_resolve (VObject (ThenCallable cs thrown)) g0 =
           (Suc n, first_call (Suc n) cs thrown (alloc_instance g0))"
    and "plain y \<Longrightarrow> first_call (Suc n) (CallFulfill y # cs) thrown (alloc_instance g0) =
           fulfill (Suc n) y (adoption_start (alloc_instance g0))"
    and "promises (fulfill (Suc n) y (adoption_start (alloc_instance g0))) =
           (promises h)(n := new_instance,
              Suc n := \<lparr>state = Fulfilled, result = y, handlers = []\<rparr>)"
    and "queue (fulfill (Suc n) y (adoption_start (alloc_instance g0))) = []"
    and "next_promise (fulfill (Suc n) y (adoption_start (alloc_instance g0))) = Suc (Suc n)"
    and "promises (reject (Suc n) e (adoption_start (alloc_instance g0))) =
           (promises h)(n := new_instance,
              Suc n := \<lparr>state = Rejected, result = e, handlers = []\<rparr>)"
    and "queue (reject (Suc n) e (adoption_start (alloc_instance g0))) = []"
    and "promises (first_call (Suc n) [] None (alloc_instance g0)) =
           (promises h)(n := new_instance, Suc n := new_instance)"
    and "queue (first_call (Suc n) [] None (alloc_instance g0)) = []"
    and "next_promise (first_call (Suc n) [] None (alloc_instance g0)) = Suc (Suc n)"
    and "called (first_call (Suc n) [] None (alloc_instance g0)) =
           (called g0)(next_called g0 := False)"
  using assms
  by (simp_all add: static_resolve_thenable new_instance_def resolve_plain plain_def heap_defs
        obs_reject_pending)


lemma adopting_pending: "adopting g r d t \<Longrightarrow> state_of g d = Pending"
  by (simp add: adopting_def heap_defs new_instance_def)

lemma finally_before_settlement:
  assumes "p < next_promise k" "state_of k p = Pending"
  shows "reject p e (snd (promise_finally p f k)) = snd (promise_finally p f (reject p e k))"
    and "plain v \<Longrightarrow>
         resolve p v (snd (promise_finally p f k)) = snd (promise_finally p f (resolve p v k))"
proof -
  show "reject p e (snd (promise_finally p f k)) = snd (promise_finally p f (reject p e k))"
    using assms by (simp add: promise_finally_def step_defs fun_upd_twist)
  assume "plain v"
  then show "resolve p v (snd (promise_finally p f k)) =
      snd (promise_finally p f (resolve p v k))"
    using assms unfolding plain_def
    by (simp add: promise_finally_def step_defs fun_upd_twist resolve_plain)
qed

text \<open>
  Claim C9. Instance \<open>p\<close> is settled (a fulfilled instance holds a value that is no
  thenable) and nothing else is queued; \<^verbatim>\<open>finally(fn)\<close> is called on it and the
  scheduler runs. \<open>fn\<close> is called with no argument on both branches. If it throws, the
  new instance is rejected with what it threw. If it returns a value that is no thenable,
  or a thenable that reports fulfilment, the new instance ends with the state and result of
  \<open>p\<close>; if the thenable reports a rejection, with that reason. If it returns a pending
  instance \<open>q\<close>, or a thenable that reports later, the new instance stays pending with
  no job left, and once \<open>q\<close> or the thenable is fulfilled it ends with the state and
  result of \<open>p\<close>, once rejected with that reason. Calling \<^verbatim>\<open>finally\<close> on a
  pending instance and settling it afterwards gives the same store as settling it first.
\<close>

theorem finally_passes_outcome_through:
  assumes b: "p < next_promise h" "queue h = []" "handlers_of h p = []"
    "state_of h p \<noteq> Pending" "state_of h p = Fulfilled \<longrightarrow> plain (result_of h p)"
  shows "fst (promise_finally p f h) = next_promise h \<and>
    ends_as (finally_after p (Throw e) h) (next_promise h) Rejected e \<and>
    (plain x \<longrightarrow>
       ends_as (ticks 2 (finally_after p (Return x) h)) (next_promise h)
         (state_of h p) (result_of h p)) \<and>
    (plain y \<longrightarrow>
       ends_as (ticks 2 (finally_after p
           (Return (VObject (ThenCallable (CallFulfill y # cs) thrown))) h))
         (next_promise h) (state_of h p) (result_of h p)) \<and>
    ends_as (ticks 2 (finally_after p
        (Return (VObject (ThenCallable (CallReject e # cs) thrown))) h))
      (next_promise h) Rejected e \<and>
    (q < next_promise h \<and> state_of h q = Pending \<and> handlers_of h q = [] \<longrightarrow>
       state_of (finally_after p (Return (VPromise q)) h) (next_promise h) = Pending \<and>
       queue (finally_after p (Return (VPromise q)) h) = [] \<and>
       (plain y \<longrightarrow>
          ends_as (ticks 2 (resolve q y (finally_after p (Return (VPromise q)) h)))
            (next_promise h) (state_of h p) (result_of h p)) \<and>
       ends_as (ticks 2 (reject q e (finally_after p (Return (VPromise q)) h)))
         (next_promise h) Rejected e) \<and>
    state_of (finally_after p (Return (VObject (ThenCallable [] None))) h) (next_promise h)
      = Pending \<and>
    queue (finally_after p (Return (VObject (ThenCallable [] None))) h) = [] \<and>
    (plain y \<longrightarrow>
       ends_as (ticks 2 (snd (call_callback
           (GuardedResolve (Suc (next_promise h)) (next_called h)) y
           (finally_after p (Return (VObject (ThenCallable [] None))) h))))
         (next_promise h) (state_of h p) (result_of h p)) \<and>
    ends_as (ticks 2 (snd (call_callback
        (GuardedReject (Suc (next_promise h)) (next_called h)) e
        (finally_after p (Return (VObject (ThenCallable [] None))) h))))
      (next_promise h) Rejected e \<and>
    (p' < next_promise k \<and> state_of k p' = Pending \<longrightarrow>
       reject p' e (snd (promise_finally p' f k)) = snd (promise_finally p' f (reject p' e k)) \<and>
       (plain y \<longrightarrow>
          resolve p' y (snd (promise_finally p' f k)) =
            snd (promise_finally p' f (resolve p' y k))))"
proof -
  let ?n = "next_promise h"
  define g0 where "g0 = note_invoked ?n ((alloc_instance h)\<lparr>queue := []\<rparr>)"
  have g0: "next_promise g0 = Suc ?n" "promises g0 = (promises h)(?n := new_instance)"
    "queue g0 = []" "called g0 = called h" "next_called g0 = next_called h"
    by (simp_all add: g0_def)
  note fs = finally_fresh_settled[OF b, folded g0_def]
  have 1: "fst (promise_finally p f h) = ?n" by (simp add: promise_finally_def)
  have 2: "ends_as (finally_after p (Throw e) h) ?n Rejected e"
    using b(1-4) by (rule finally_throws)
  have 3: "ends_as (ticks 2 (finally_after p (Return x) h)) ?n (state_of h p) (result_of h p)"
    if "plain x"
    using fs(1)[OF wrap_plain[OF that g0(1-3)]] by simp
  have 4: "ends_as (ticks 2 (finally_after p
           (Return (VObject (ThenCallable (CallFulfill y # cs) thrown))) h))
         ?n (state_of h p) (result_of h p)" if y: "plain y"
    using fs(1)[OF wrap_thenable(1)[OF g0(1-3), of "CallFulfill y # cs" thrown,
          unfolded wrap_thenable(2)[OF g0(1-3) y]] wrap_thenable(3-5)[OF g0(1-3)]]
    by simp
  have 5: "ends_as (ticks 2 (finally_after p
        (Return (VObject (ThenCallable (CallReject e # cs) thrown))) h)) ?n Rejected e"
    using fs(2)[where x = "VObject (ThenCallable (CallReject e # cs) thrown)"
        and ?g2.0 = "reject (Suc ?n) e (adoption_start (alloc_instance g0))"
        and P = "\<lparr>state = Rejected, result = e, handlers = []\<rparr>"]
      wrap_thenable(1)[OF g0(1-3), of "CallReject e # cs" thrown]
      wrap_thenable(6,7)[OF g0(1-3), of e]
    by (simp add: g0)
  have 6: "state_of (finally_after p (Return (VPromise q)) h) ?n = Pending \<and>
       queue (finally_after p (Return (VPromise q)) h) = [] \<and>
       (plain y \<longrightarrow>
          ends_as (ticks 2 (resolve q y (finally_after p (Return (VPromise q)) h)))
            ?n (state_of h p) (result_of h p)) \<and>
       ends_as (ticks 2 (reject q e (finally_after p (Return (VPromise q)) h)))
         ?n Rejected e"
    if q: "q < ?n" "state_of h q = Pending" "handlers_of h q = []"
  proof -
    let ?G = "finally_after p (Return (VPromise q)) h"
    from finally_tick_pending[OF b(1-4) q, folded finally_after_def]
    have G: "queue ?G = []" "state_of ?G q = Pending"
      "handlers_of ?G q = [\<lparr>onfulfilled = pass_through h p, onrejected = NotCallable,
               downstream = Suc ?n\<rparr>]"
      "adopting ?G (Suc ?n) ?n (Suc (Suc ?n))" by simp_all
    have ne: "q \<noteq> Suc ?n" "q \<noteq> ?n" "q \<noteq> Suc (Suc ?n)" using q by simp_all
    note w = waiting_then_settled[OF G ne b(4,5)]
    show ?thesis using w(1,2) G(1) adopting_pending[OF G(4)] by simp
  qed
  let ?W = "finally_after p (Return (VObject (ThenCallable [] None))) h"
  from fs(3)[where x = "VObject (ThenCallable [] None)"
        and ?g2.0 = "first_call (Suc ?n) [] None (alloc_instance g0)"
        and P = new_instance]
      wrap_thenable(1)[OF g0(1-3), of "[]" None] wrap_thenable(8-11)[OF g0(1-3)]
  have W: "state_of ?W ?n = Pending" "queue ?W = []" "state_of ?W (Suc ?n) = Pending"
      "handlers_of ?W (Suc ?n) = [\<lparr>onfulfilled = pass_through h p, onrejected = NotCallable,
               downstream = Suc (Suc ?n)\<rparr>]"
      "\<not> called ?W (next_called h)"
      "adopting ?W (Suc (Suc ?n)) ?n (Suc (Suc (Suc ?n)))"
    by (simp_all add: new_instance_def g0)
  note ww = waiting_then_settled[OF W(2,3,4,6) _ _ _ b(4,5)]
  have 7: "plain y \<longrightarrow>
       ends_as (ticks 2 (snd (call_callback (GuardedResolve (Suc ?n) (next_called h)) y ?W)))
         ?n (state_of h p) (result_of h p)"
    using ww(3)[of y "next_called h"] W(5) by simp
  have 8: "ends_as (ticks 2 (snd (call_callback
        (GuardedReject (Suc ?n) (next_called h)) e ?W))) ?n Rejected e"
    using ww(4)[of "next_called h" e] W(5) by simp
  have 9: "reject p' e (snd (promise_finally p' f k)) =
        snd (promise_finally p' f (reject p' e k)) \<and>
       (plain y \<longrightarrow>
          resolve p' y (snd (promise_finally p' f k)) =
            snd (promise_finally p' f (resolve p' y k)))"
    if "p' < next_promise k" "state_of k p' = Pending"
    using finally_before_settlement[OF that] by simp
  show ?thesis using 1 2 3 4 5 6 W(1,2) 7 8 9 by simp
qed


theorem finally_passes_outcome_through_witness:
  "0 < next_promise (snd (new_promise [] None (snd (static_resolve (VNum 1) empty_heap)))) \<and>
   queue (snd (new_promise [] None (snd (static_resolve (VNum 1) empty_heap)))) = [] \<and>
   handlers_of (snd (new_promise [] None (snd (static_resolve (VNum 1) empty_heap)))) 0 = [] \<and>
   state_of (snd (new_promise [] None (snd (static_resolve (VNum 1) empty_heap)))) 0
     = Fulfilled \<and>
   plain (result_of (snd (new_promise [] None (snd (static_resolve (VNum 1) empty_heap)))) 0) \<and>
   plain (VNum 9) \<and>
   1 < next_promise (snd (new_promise [] None (snd (static_resolve (VNum 1) empty_heap)))) \<and>
   state_of (snd (new_promise [] None (snd (static_resolve (VNum 1) empty_heap)))) 1
     = Pending \<and>
   handlers_of (snd (new_promise [] None (snd (static_resolve (VNum 1) empty_heap)))) 1 = [] \<and>
   ends_as (ticks 2 (finally_after 0 (Return (VNum 9))
       (snd (new_promise [] None (snd (static_resolve (VNum 1) empty_heap))))))
     2 Fulfilled (VNum 1) \<and>
   ends_as (ticks 2 (resolve 1 (VNum 9) (finally_after 0 (Return (VPromise 1))
       (snd (new_promise [] None (snd (static_resolve (VNum 1) empty_heap)))))))
     2 Fulfilled (VNum 1) \<and>
   ends_as (ticks 2 (reject 1 (VStr ''late'') (finally_after 0 (Return (VPromise 1))
       (snd (new_promise [] None (snd (static_resolve (VNum 1) empty_heap)))))))
     2 Rejected (VStr ''late'')"
proof -
  let ?H = "snd (new_promise [] None (snd (static_resolve (VNum 1) empty_heap)))"
  have a: "0 < next_promise ?H" "queue ?H = []" "handlers_of ?H 0 = []"
    "state_of ?H 0 \<noteq> Pending" "state_of ?H 0 = Fulfilled \<longrightarrow> plain (result_of ?H 0)"
    by (simp_all add: eval_defs plain_def)
  have v: "next_promise ?H = 2" "state_of ?H 0 = Fulfilled" "result_of ?H 0 = VNum 1"
    "state_of ?H 1 = Pending" "handlers_of ?H 1 = []" "plain (VNum 9)" "plain (VNum 1)"
    by (simp_all add: eval_defs plain_def)
  show ?thesis
    using finally_passes_outcome_through [OF a, where x = "VNum 9" and y = "VNum 9"
        and q = 1 and e = "VStr ''late''"] a(2,3) v
    by simp
qed

section \<open>The two classes agree\<close>

lemma runHandlers2_eq: "runHandlers2 = runHandlers"
  unfolding fun_eq_iff runHandlers2_def runHandlers_def
  by simp

lemma reject2_eq: "reject2 = reject"
  unfolding fun_eq_iff reject2_def reject_def runHandlers2_eq
  by simp

lemma fulfill2_eq: "fulfill2 = fulfill"
  unfolding fun_eq_iff fulfill2_def fulfill_def runHandlers2_eq
  by simp

lemma construct2_eq: "construct2 = construct"
  unfolding fun_eq_iff construct2_def construct_def reject2_eq
  by simp

lemma promise_then2_eq: "promise_then2 = promise_then"
  unfolding fun_eq_iff promise_then2_def promise_then_def construct2_eq runHandlers2_eq
  by simp

lemma promise_catch2_eq: "promise_catch2 = promise_catch"
  unfolding fun_eq_iff promise_catch2_def promise_catch_def promise_then2_eq
  by simp

lemma resolve2_eq_aux:
  "resolve2 p v h = resolve p v h"
  "then_calls2 p c cs h = then_calls p c cs h"
proof (induction p v h and p c cs h rule: resolve2_then_calls2.induct)
  case (1 p v h)
  show ?case
  proof (cases "state_of h p = Pending")
    case False
    then show ?thesis by (simp add: resolve_eq)
  next
    case True
    show ?thesis
    proof (cases v)
      case (VObject tm)
      show ?thesis
      proof (cases tm)
        case (ThenCallable cs thrown)
        from "1.IH"[OF _ VObject ThenCallable refl refl] True
        have "then_calls2 p (next_called h) cs
                (h\<lparr>called := (called h)(next_called h := False),
                   next_called := Suc (next_called h)\<rparr>) =
              then_calls p (next_called h) cs
                (h\<lparr>called := (called h)(next_called h := False),
                   next_called := Suc (next_called h)\<rparr>)" by simp
        then show ?thesis using True VObject ThenCallable
          by (cases thrown) (simp_all add: resolve_eq reject2_eq Let_def)
      qed (use True VObject in \<open>simp_all add: resolve_eq reject2_eq fulfill2_eq\<close>)
    qed (use True in \<open>simp_all add: resolve_eq reject2_eq fulfill2_eq promise_then2_eq\<close>)
  qed
next
  case (2 p c h)
  then show ?case by simp
next
  case (3 p c v cs h)
  then show ?case by (cases "called h c") simp_all
next
  case (4 p c r cs h)
  then show ?case by (cases "called h c") (simp_all add: reject2_eq)
qed

declare resolve2.simps [simp del]

lemma resolve2_eq: "resolve2 = resolve"
  unfolding fun_eq_iff resolve2_eq_aux
  by simp

lemma static_resolve2_eq: "static_resolve2 = static_resolve"
  unfolding fun_eq_iff static_resolve2_def static_resolve_def construct2_eq resolve2_eq
  by simp

lemma static_reject2_eq: "static_reject2 = static_reject"
  unfolding fun_eq_iff static_reject2_def static_reject_def construct2_eq reject2_eq
  by simp

lemma call_onfinally2_eq: "call_onfinally2 = call_onfinally"
  unfolding fun_eq_iff call_onfinally2_def call_onfinally_def resolve2_eq
  by simp

lemma passThroughFulfilled2_eq: "passThroughFulfilled2 = passThroughFulfilled"
  unfolding fun_eq_iff passThroughFulfilled2_def passThroughFulfilled_def call_onfinally2_eq static_resolve2_eq promise_then2_eq
  by simp

lemma passThroughRejected2_eq: "passThroughRejected2 = passThroughRejected"
  unfolding fun_eq_iff passThroughRejected2_def passThroughRejected_def call_onfinally2_eq static_resolve2_eq promise_then2_eq
  by simp

lemma call_callback2_eq: "call_callback2 f v h = call_callback f v h"
  by (cases f)
     (simp_all add: resolve2_eq reject2_eq passThroughFulfilled2_eq passThroughRejected2_eq
        Let_def)

lemma run_job2_eq: "run_job2 = run_job"
  unfolding fun_eq_iff run_job2_def run_job_def resolve2_eq reject2_eq call_callback2_eq
  by simp

lemma run_next2_eq: "run_next2 = run_next"
  unfolding fun_eq_iff run_next2_def run_next_def run_job2_eq
  by simp

lemma promise_finally2_eq: "promise_finally2 = promise_finally"
  unfolding fun_eq_iff promise_finally2_def promise_finally_def promise_then2_eq
  by simp

lemma all_each2_eq: "all_each2 cx vs i h = all_each cx vs i h"
  by (induction vs arbitrary: i h)
     (simp_all add: static_resolve2_eq promise_then2_eq promise_catch2_eq split_def Let_def)

lemma allSettled_each2_eq: "allSettled_each2 cx vs i h = allSettled_each cx vs i h"
  by (induction vs arbitrary: i h)
     (simp_all add: static_resolve2_eq promise_then2_eq promise_catch2_eq
        promise_finally2_eq split_def Let_def)

lemma race_each2_eq: "race_each2 p vs h = race_each p vs h"
  by (induction vs arbitrary: h)
     (simp_all add: static_resolve2_eq promise_then2_eq split_def Let_def)

lemma any_each2_eq: "any_each2 cx vs i h = any_each cx vs i h"
  by (induction vs arbitrary: i h)
     (simp_all add: static_resolve2_eq promise_then2_eq promise_catch2_eq split_def Let_def)

lemma promise_all2_eq: "promise_all2 = promise_all"
  unfolding fun_eq_iff promise_all2_def promise_all_def construct2_eq resolve2_eq all_each2_eq
  by simp

lemma promise_allSettled2_eq: "promise_allSettled2 = promise_allSettled"
  unfolding fun_eq_iff promise_allSettled2_def promise_allSettled_def construct2_eq resolve2_eq allSettled_each2_eq
  by simp

lemma promise_race2_eq: "promise_race2 = promise_race"
  unfolding fun_eq_iff promise_race2_def promise_race_def construct2_eq race_each2_eq
  by simp

lemma promise_any2_eq: "promise_any2 = promise_any"
  unfolding fun_eq_iff promise_any2_def promise_any_def construct2_eq reject2_eq any_each2_eq
  by simp

lemma exec_calls2_eq: "exec_calls2 p cs h = exec_calls p cs h"
  by (induction p cs h rule: exec_calls.induct) (simp_all add: resolve2_eq reject2_eq)

lemma new_promise2_eq: "new_promise2 = new_promise"
  unfolding fun_eq_iff new_promise2_def new_promise_def construct2_eq exec_calls2_eq
  by simp

lemma exec_op2_eq: "exec_op2 x h = exec_op x h"
  by (cases x)
     (simp_all add: new_promise2_eq call_callback2_eq promise_then2_eq promise_catch2_eq
        promise_finally2_eq static_resolve2_eq static_reject2_eq promise_all2_eq
        promise_allSettled2_eq promise_race2_eq promise_any2_eq run_next2_eq)

text \<open>
  Claim C10. The classes of lines 42 to 315 and of lines 360 to 746 behave alike: whatever
  sequence of constructions, closure calls, \<^verbatim>\<open>then\<close>, \<^verbatim>\<open>catch\<close>,
  \<^verbatim>\<open>finally\<close>, static combinators and scheduler ticks is run, from whatever store,
  both leave the same store: the same states and results of all instances, the same
  waiting handlers and the same microtask queue.
\<close>

theorem drafts_agree: "run2 ops h = run ops h"
  by (induction ops arbitrary: h) (simp_all add: exec_op2_eq)

section \<open>The combinators\<close>

lemma obs_more [simp]:
  "arrays (alloc_instance h) = arrays h" "counters (alloc_instance h) = counters h"
  "next_array (alloc_instance h) = next_array h" "next_counter (alloc_instance h) = next_counter h"
  "arrays (register this hdl h) = arrays h" "counters (register this hdl h) = counters h"
  "next_array (register this hdl h) = next_array h"
  "next_counter (register this hdl h) = next_counter h"
  "arrays (fulfill p v h) = arrays h" "counters (fulfill p v h) = counters h"
  "next_array (fulfill p v h) = next_array h" "next_counter (fulfill p v h) = next_counter h"
  "arrays (reject p v h) = arrays h" "counters (reject p v h) = counters h"
  "next_array (reject p v h) = next_array h" "next_counter (reject p v h) = next_counter h"
  "arrays (note_invoked d h) = arrays h" "counters (note_invoked d h) = counters h"
  "next_array (note_invoked d h) = next_array h"
  "next_counter (note_invoked d h) = next_counter h"
  by (simp_all add: alloc_instance_def register_def runHandlers_def fulfill_def reject_def
        note_invoked_def heap_defs)

lemma obs_increment [simp]:
  "promises (increment k h) = promises h" "queue (increment k h) = queue h"
  "next_promise (increment k h) = next_promise h"
  "counters (increment k h) = (counters h)(k := Suc (counters h k))"
  "arrays (increment k h) = arrays h"
  "next_array (increment k h) = next_array h" "next_counter (increment k h) = next_counter h"
  by (simp_all add: increment_def)

lemma obs_store_at [simp]:
  "promises (store_at a i v h) = promises h" "queue (store_at a i v h) = queue h"
  "next_promise (store_at a i v h) = next_promise h"
  "counters (store_at a i v h) = counters h"
  "arrays (store_at a i v h) = (arrays h)(a := arr_set (arrays h a) i v)"
  "next_array (store_at a i v h) = next_array h" "next_counter (store_at a i v h) = next_counter h"
  by (simp_all add: store_at_def)

lemma tick_pass_fulfilled:
  assumes "queue H = (q, hdl) # js" "q < next_promise H" "state_of H q = Fulfilled"
    "onfulfilled hdl = NotCallable" "plain (result_of H q)"
    "state_of H (downstream hdl) = Pending"
  shows "run_next H = fulfill (downstream hdl) (result_of H q) (H\<lparr>queue := js\<rparr>)"
proof -
  have "run_next H = run_job (q, hdl) (H\<lparr>queue := js\<rparr>)"
    using assms(1) by (simp add: run_next_def)
  also have "\<dots> = resolve (downstream hdl) (result_of H q) (H\<lparr>queue := js\<rparr>)"
    using assms by (subst run_job_fulfilled) simp_all
  also have "\<dots> = fulfill (downstream hdl) (result_of H q) (H\<lparr>queue := js\<rparr>)"
    using assms by (simp add: resolve_plain plain_def)
  finally show ?thesis .
qed

lemma tick_pass_rejected:
  assumes "queue H = (q, hdl) # js" "state_of H q = Rejected" "onrejected hdl = NotCallable"
  shows "run_next H = reject (downstream hdl) (result_of H q) (H\<lparr>queue := js\<rparr>)"
proof -
  have "run_next H = run_job (q, hdl) (H\<lparr>queue := js\<rparr>)"
    using assms(1) by (simp add: run_next_def)
  also have "\<dots> = reject (downstream hdl) (result_of H q) (H\<lparr>queue := js\<rparr>)"
    using assms by (subst run_job_rejected) simp_all
  finally show ?thesis .
qed

lemma tick_call_fulfilled:
  assumes "queue H = (q, hdl) # js" "q < next_promise H" "state_of H q = Fulfilled"
    "is_function (onfulfilled hdl)"
  shows "run_next H = settle_with (downstream hdl)
      (call_callback (onfulfilled hdl) (result_of H q)
         (note_invoked (downstream hdl) (H\<lparr>queue := js\<rparr>)))"
proof -
  have "run_next H = run_job (q, hdl) (H\<lparr>queue := js\<rparr>)"
    using assms(1) by (simp add: run_next_def)
  also have "\<dots> = settle_with (downstream hdl)
      (call_callback (onfulfilled hdl) (result_of H q)
         (note_invoked (downstream hdl) (H\<lparr>queue := js\<rparr>)))"
    using assms by (subst run_job_fulfilled) simp_all
  finally show ?thesis .
qed

lemma tick_call_rejected:
  assumes "queue H = (q, hdl) # js" "state_of H q = Rejected"
    "is_function (onrejected hdl)"
  shows "run_next H = settle_with (downstream hdl)
      (call_callback (onrejected hdl) (result_of H q)
         (note_invoked (downstream hdl) (H\<lparr>queue := js\<rparr>)))"
proof -
  have "run_next H = run_job (q, hdl) (H\<lparr>queue := js\<rparr>)"
    using assms(1) by (simp add: run_next_def)
  also have "\<dots> = settle_with (downstream hdl)
      (call_callback (onrejected hdl) (result_of H q)
         (note_invoked (downstream hdl) (H\<lparr>queue := js\<rparr>)))"
    using assms by (subst run_job_rejected) simp_all
  finally show ?thesis .
qed

lemma resolve_array:
  "resolve p (VArray a) h = (if state_of h p \<noteq> Pending then h else fulfill p (VArray a) h)"
  by (simp add: resolve_eq)

lemma resolve_undefined:
  "state_of h p = Pending \<Longrightarrow> resolve p VUndefined h = fulfill p VUndefined h"
  by (simp add: resolve_eq)

text \<open>One element of all fulfils, and its two jobs run.\<close>

lemma all_step_fulfil:
  assumes q: "queue H = []"
    and e: "state_of H q = Pending"
      "handlers_of H q = [\<lparr>onfulfilled = AllThen cx i, onrejected = NotCallable, downstream = r\<rparr>]"
      "state_of H r = Pending"
      "handlers_of H r = [\<lparr>onfulfilled = NotCallable, onrejected = AllCatch (outer cx),
          downstream = s\<rparr>]"
      "state_of H s = Pending" "handlers_of H s = []"
    and o: "state_of H (outer cx) = Pending \<longrightarrow> handlers_of H (outer cx) = []"
    and d: "q < next_promise H" "r < next_promise H" "q \<noteq> r" "q \<noteq> s" "q \<noteq> outer cx"
      "r \<noteq> s" "r \<noteq> outer cx" "s \<noteq> outer cx"
    and y: "plain y"
  shows "promises (ticks 2 (resolve q y H)) = (promises H)
      (q := \<lparr>state = Fulfilled, result = y, handlers = []\<rparr>,
       outer cx := (if Suc (counters H (count cx)) = total cx \<and> state_of H (outer cx) = Pending
          then \<lparr>state = Fulfilled, result = VArray (results cx), handlers = []\<rparr>
          else promises H (outer cx)),
       r := \<lparr>state = Fulfilled, result = VUndefined, handlers = []\<rparr>,
       s := \<lparr>state = Fulfilled, result = VUndefined, handlers = []\<rparr>)"
    and "queue (ticks 2 (resolve q y H)) = []"
    and "counters (ticks 2 (resolve q y H)) =
           (counters H)(count cx := Suc (counters H (count cx)))"
    and "arrays (ticks 2 (resolve q y H)) =
           (arrays H)(results cx := arr_set (arrays H (results cx)) i y)"
    and "next_promise (ticks 2 (resolve q y H)) = next_promise H"
proof -
  let ?h1 = "\<lparr>onfulfilled = AllThen cx i, onrejected = NotCallable, downstream = r\<rparr>"
  let ?h2 = "\<lparr>onfulfilled = NotCallable, onrejected = AllCatch (outer cx), downstream = s\<rparr>"
  define A where "A = resolve q y H"
  have A: "promises A = (promises H)(q := \<lparr>state = Fulfilled, result = y, handlers = []\<rparr>)"
    "queue A = [(q, ?h1)]" "next_promise A = next_promise H"
    "counters A = counters H" "arrays A = arrays H"
    using q e y by (simp_all add: A_def resolve_plain plain_def heap_defs)
  define g where "g = store_at (results cx) i y (increment (count cx)
      (note_invoked r (A\<lparr>queue := []\<rparr>)))"
  have g: "promises g = promises A" "queue g = []" "next_promise g = next_promise H"
    "counters g = (counters H)(count cx := Suc (counters H (count cx)))"
    "arrays g = (arrays H)(results cx := arr_set (arrays H (results cx)) i y)"
    by (simp_all add: g_def A)
  define g' where "g' = (if counters g (count cx) = total cx
      then resolve (outer cx) (VArray (results cx)) g else g)"
  have g': "promises g' = (promises A)(outer cx :=
        (if Suc (counters H (count cx)) = total cx \<and> state_of H (outer cx) = Pending
          then \<lparr>state = Fulfilled, result = VArray (results cx), handlers = []\<rparr>
          else promises H (outer cx)))"
     "queue g' = []" "next_promise g' = next_promise H"
     "counters g' = counters g" "arrays g' = arrays g"
    using d o
    by (cases "state_of H (outer cx) = Pending";
        simp add: g'_def resolve_array g A heap_defs fun_upd_idem)+
  define B where "B = run_next A"
  have "B = settle_with r (call_callback (AllThen cx i) y (note_invoked r (A\<lparr>queue := []\<rparr>)))"
    unfolding B_def using d
    by (subst tick_call_fulfilled[where q = q and hdl = ?h1 and js = "[]"])
       (simp_all add: A heap_defs)
  then have B1: "B = resolve r VUndefined g'"
    by (simp add: settle_with_def g_def g'_def Let_def)
  have "state_of g' r = Pending" using d e by (simp add: heap_defs g' A)
  then have B2: "B = fulfill r VUndefined g'" using B1 by (simp add: resolve_undefined)
  have B: "promises B = (promises g')(r := \<lparr>state = Fulfilled, result = VUndefined,
       handlers = []\<rparr>)" "queue B = [(r, ?h2)]" "next_promise B = next_promise H"
     "counters B = counters g" "arrays B = arrays g"
    using d e by (simp_all add: B2 g' A heap_defs)
  define C where "C = run_next B"
  have "C = fulfill s (result_of B r) (B\<lparr>queue := []\<rparr>)"
    unfolding C_def using d e
    by (subst tick_pass_fulfilled[where q = r and hdl = ?h2 and js = "[]"])
       (simp_all add: B g' A heap_defs plain_def)
  then have C: "C = fulfill s VUndefined (B\<lparr>queue := []\<rparr>)" by (simp add: B heap_defs)
  have t: "ticks 2 (resolve q y H) = C"
    by (simp add: numeral_2_eq_2 C_def B_def A_def)
  show "promises (ticks 2 (resolve q y H)) = (promises H)
      (q := \<lparr>state = Fulfilled, result = y, handlers = []\<rparr>,
       outer cx := (if Suc (counters H (count cx)) = total cx \<and> state_of H (outer cx) = Pending
          then \<lparr>state = Fulfilled, result = VArray (results cx), handlers = []\<rparr>
          else promises H (outer cx)),
       r := \<lparr>state = Fulfilled, result = VUndefined, handlers = []\<rparr>,
       s := \<lparr>state = Fulfilled, result = VUndefined, handlers = []\<rparr>)"
    unfolding t C by (simp add: B g' A)
  show "queue (ticks 2 (resolve q y H)) = []"
    unfolding t C using d e by (simp add: B g' A heap_defs)
  show "counters (ticks 2 (resolve q y H)) =
           (counters H)(count cx := Suc (counters H (count cx)))"
    unfolding t C by (simp add: B g)
  show "arrays (ticks 2 (resolve q y H)) =
           (arrays H)(results cx := arr_set (arrays H (results cx)) i y)"
    unfolding t C by (simp add: B g)
  show "next_promise (ticks 2 (resolve q y H)) = next_promise H"
    unfolding t C by (simp add: B)
qed


text \<open>One element of all rejects, and its two jobs run.\<close>

lemma all_step_reject:
  assumes q: "queue H = []"
    and e: "state_of H q = Pending"
      "handlers_of H q = [\<lparr>onfulfilled = AllThen cx i, onrejected = NotCallable, downstream = r\<rparr>]"
      "state_of H r = Pending"
      "handlers_of H r = [\<lparr>onfulfilled = NotCallable, onrejected = AllCatch (outer cx),
          downstream = s\<rparr>]"
      "state_of H s = Pending" "handlers_of H s = []"
    and o: "state_of H (outer cx) = Pending \<longrightarrow> handlers_of H (outer cx) = []"
    and d: "q < next_promise H" "r < next_promise H" "q \<noteq> r" "q \<noteq> s" "q \<noteq> outer cx"
      "r \<noteq> s" "r \<noteq> outer cx" "s \<noteq> outer cx"
  shows "promises (ticks 2 (reject q x H)) = (promises H)
      (q := \<lparr>state = Rejected, result = x, handlers = []\<rparr>,
       r := \<lparr>state = Rejected, result = x, handlers = []\<rparr>,
       outer cx := (if state_of H (outer cx) = Pending
          then \<lparr>state = Rejected, result = x, handlers = []\<rparr>
          else promises H (outer cx)),
       s := \<lparr>state = Fulfilled, result = VUndefined, handlers = []\<rparr>)"
    and "queue (ticks 2 (reject q x H)) = []"
    and "counters (ticks 2 (reject q x H)) = counters H"
    and "arrays (ticks 2 (reject q x H)) = arrays H"
    and "next_promise (ticks 2 (reject q x H)) = next_promise H"
proof -
  let ?h1 = "\<lparr>onfulfilled = AllThen cx i, onrejected = NotCallable, downstream = r\<rparr>"
  let ?h2 = "\<lparr>onfulfilled = NotCallable, onrejected = AllCatch (outer cx), downstream = s\<rparr>"
  define A where "A = reject q x H"
  have A: "promises A = (promises H)(q := \<lparr>state = Rejected, result = x, handlers = []\<rparr>)"
    "queue A = [(q, ?h1)]" "next_promise A = next_promise H"
    "counters A = counters H" "arrays A = arrays H"
    using q e by (simp_all add: A_def obs_reject_pending heap_defs)
  define B where "B = run_next A"
  have "B = reject r (result_of A q) (A\<lparr>queue := []\<rparr>)"
    unfolding B_def
    by (subst tick_pass_rejected[where q = q and hdl = ?h1 and js = "[]"])
       (simp_all add: A heap_defs)
  then have B0: "B = reject r x (A\<lparr>queue := []\<rparr>)" by (simp add: A heap_defs)
  have B: "promises B = (promises A)(r := \<lparr>state = Rejected, result = x, handlers = []\<rparr>)"
     "queue B = [(r, ?h2)]" "next_promise B = next_promise H"
     "counters B = counters H" "arrays B = arrays H"
    using d e by (simp_all add: B0 A heap_defs obs_reject_pending)
  define g where "g = reject (outer cx) x (note_invoked s (B\<lparr>queue := []\<rparr>))"
  have g: "promises g = (promises B)(outer cx := (if state_of H (outer cx) = Pending
          then \<lparr>state = Rejected, result = x, handlers = []\<rparr>
          else promises H (outer cx)))"
     "queue g = []" "next_promise g = next_promise H"
     "counters g = counters H" "arrays g = arrays H"
    using d o
    by (cases "state_of H (outer cx) = Pending";
        simp add: g_def B A heap_defs obs_reject_pending reject_settled fun_upd_idem)+
  define C where "C = run_next B"
  have "C = settle_with s (call_callback (AllCatch (outer cx)) (result_of B r)
       (note_invoked s (B\<lparr>queue := []\<rparr>)))"
    unfolding C_def
    by (subst tick_call_rejected[where q = r and hdl = ?h2 and js = "[]"])
       (simp_all add: B heap_defs)
  then have C1: "C = resolve s VUndefined g"
    by (simp add: settle_with_def g_def B heap_defs)
  have "state_of g s = Pending" using d e by (simp add: heap_defs g B A)
  then have C: "C = fulfill s VUndefined g" using C1 by (simp add: resolve_undefined)
  have t: "ticks 2 (reject q x H) = C"
    by (simp add: numeral_2_eq_2 C_def B_def A_def)
  show "promises (ticks 2 (reject q x H)) = (promises H)
      (q := \<lparr>state = Rejected, result = x, handlers = []\<rparr>,
       r := \<lparr>state = Rejected, result = x, handlers = []\<rparr>,
       outer cx := (if state_of H (outer cx) = Pending
          then \<lparr>state = Rejected, result = x, handlers = []\<rparr>
          else promises H (outer cx)),
       s := \<lparr>state = Fulfilled, result = VUndefined, handlers = []\<rparr>)"
    unfolding t C by (simp add: g B A)
  show "queue (ticks 2 (reject q x H)) = []"
    unfolding t C using d e by (simp add: g B A heap_defs)
  show "counters (ticks 2 (reject q x H)) = counters H"
    unfolding t C by (simp add: g)
  show "arrays (ticks 2 (reject q x H)) = arrays H"
    unfolding t C by (simp add: g)
  show "next_promise (ticks 2 (reject q x H)) = next_promise H"
    unfolding t C by (simp add: g)
qed

text \<open>The same for any.\<close>

lemma any_step_fulfil:
  assumes q: "queue H = []"
    and e: "state_of H q = Pending"
      "handlers_of H q = [\<lparr>onfulfilled = ResolveFn (outer cx), onrejected = NotCallable,
          downstream = r\<rparr>]"
      "state_of H r = Pending"
      "handlers_of H r = [\<lparr>onfulfilled = NotCallable, onrejected = AnyCatch cx i,
          downstream = s\<rparr>]"
      "state_of H s = Pending" "handlers_of H s = []"
    and o: "state_of H (outer cx) = Pending \<longrightarrow> handlers_of H (outer cx) = []"
    and d: "q < next_promise H" "r < next_promise H" "q \<noteq> r" "q \<noteq> s" "q \<noteq> outer cx"
      "r \<noteq> s" "r \<noteq> outer cx" "s \<noteq> outer cx"
    and y: "plain y"
  shows "promises (ticks 2 (resolve q y H)) = (promises H)
      (q := \<lparr>state = Fulfilled, result = y, handlers = []\<rparr>,
       outer cx := (if state_of H (outer cx) = Pending
          then \<lparr>state = Fulfilled, result = y, handlers = []\<rparr>
          else promises H (outer cx)),
       r := \<lparr>state = Fulfilled, result = VUndefined, handlers = []\<rparr>,
       s := \<lparr>state = Fulfilled, result = VUndefined, handlers = []\<rparr>)"
    and "queue (ticks 2 (resolve q y H)) = []"
    and "counters (ticks 2 (resolve q y H)) = counters H"
    and "arrays (ticks 2 (resolve q y H)) = arrays H"
    and "next_promise (ticks 2 (resolve q y H)) = next_promise H"
proof -
  let ?h1 = "\<lparr>onfulfilled = ResolveFn (outer cx), onrejected = NotCallable, downstream = r\<rparr>"
  let ?h2 = "\<lparr>onfulfilled = NotCallable, onrejected = AnyCatch cx i, downstream = s\<rparr>"
  define A where "A = resolve q y H"
  have A: "promises A = (promises H)(q := \<lparr>state = Fulfilled, result = y, handlers = []\<rparr>)"
    "queue A = [(q, ?h1)]" "next_promise A = next_promise H"
    "counters A = counters H" "arrays A = arrays H"
    using q e y by (simp_all add: A_def resolve_plain plain_def heap_defs)
  define g where "g = resolve (outer cx) y (note_invoked r (A\<lparr>queue := []\<rparr>))"
  have g0: "g = (if state_of H (outer cx) = Pending
       then fulfill (outer cx) y (note_invoked r (A\<lparr>queue := []\<rparr>))
       else note_invoked r (A\<lparr>queue := []\<rparr>))"
  proof (cases "state_of H (outer cx) = Pending")
    case True
    then have "state_of (note_invoked r (A\<lparr>queue := []\<rparr>)) (outer cx) = Pending"
      using d by (simp add: A heap_defs)
    then show ?thesis using True y by (simp add: g_def resolve_plain plain_def)
  next
    case False
    then have "state_of (note_invoked r (A\<lparr>queue := []\<rparr>)) (outer cx) \<noteq> Pending"
      using d by (simp add: A heap_defs)
    then show ?thesis using False by (simp add: g_def resolve_eq)
  qed
  have g: "promises g = (promises A)(outer cx := (if state_of H (outer cx) = Pending
          then \<lparr>state = Fulfilled, result = y, handlers = []\<rparr>
          else promises H (outer cx)))"
     "queue g = []" "next_promise g = next_promise H"
     "counters g = counters H" "arrays g = arrays H"
    using d o
    by (cases "state_of H (outer cx) = Pending"; simp add: g0 A heap_defs fun_upd_idem)+
  define B where "B = run_next A"
  have "B = settle_with r (call_callback (ResolveFn (outer cx)) y
       (note_invoked r (A\<lparr>queue := []\<rparr>)))"
    unfolding B_def using d
    by (subst tick_call_fulfilled[where q = q and hdl = ?h1 and js = "[]"])
       (simp_all add: A heap_defs)
  then have B1: "B = resolve r VUndefined g" by (simp add: settle_with_def g_def)
  have "state_of g r = Pending" using d e by (simp add: heap_defs g A)
  then have B2: "B = fulfill r VUndefined g" using B1 by (simp add: resolve_undefined)
  have B: "promises B = (promises g)(r := \<lparr>state = Fulfilled, result = VUndefined,
       handlers = []\<rparr>)" "queue B = [(r, ?h2)]" "next_promise B = next_promise H"
     "counters B = counters H" "arrays B = arrays H"
    using d e by (simp_all add: B2 g A heap_defs)
  define C where "C = run_next B"
  have "C = fulfill s (result_of B r) (B\<lparr>queue := []\<rparr>)"
    unfolding C_def using d e
    by (subst tick_pass_fulfilled[where q = r and hdl = ?h2 and js = "[]"])
       (simp_all add: B g A heap_defs plain_def)
  then have C: "C = fulfill s VUndefined (B\<lparr>queue := []\<rparr>)" by (simp add: B heap_defs)
  have t: "ticks 2 (resolve q y H) = C"
    by (simp add: numeral_2_eq_2 C_def B_def A_def)
  show "promises (ticks 2 (resolve q y H)) = (promises H)
      (q := \<lparr>state = Fulfilled, result = y, handlers = []\<rparr>,
       outer cx := (if state_of H (outer cx) = Pending
          then \<lparr>state = Fulfilled, result = y, handlers = []\<rparr>
          else promises H (outer cx)),
       r := \<lparr>state = Fulfilled, result = VUndefined, handlers = []\<rparr>,
       s := \<lparr>state = Fulfilled, result = VUndefined, handlers = []\<rparr>)"
    unfolding t C by (simp add: B g A)
  show "queue (ticks 2 (resolve q y H)) = []"
    unfolding t C using d e by (simp add: B g A heap_defs)
  show "counters (ticks 2 (resolve q y H)) = counters H"
    unfolding t C by (simp add: B)
  show "arrays (ticks 2 (resolve q y H)) = arrays H"
    unfolding t C by (simp add: B)
  show "next_promise (ticks 2 (resolve q y H)) = next_promise H"
    unfolding t C by (simp add: B)
qed

lemma any_step_reject:
  assumes q: "queue H = []"
    and e: "state_of H q = Pending"
      "handlers_of H q = [\<lparr>onfulfilled = ResolveFn (outer cx), onrejected = NotCallable,
          downstream = r\<rparr>]"
      "state_of H r = Pending"
      "handlers_of H r = [\<lparr>onfulfilled = NotCallable, onrejected = AnyCatch cx i,
          downstream = s\<rparr>]"
      "state_of H s = Pending" "handlers_of H s = []"
    and o: "state_of H (outer cx) = Pending \<longrightarrow> handlers_of H (outer cx) = []"
    and d: "q < next_promise H" "r < next_promise H" "q \<noteq> r" "q \<noteq> s" "q \<noteq> outer cx"
      "r \<noteq> s" "r \<noteq> outer cx" "s \<noteq> outer cx"
  shows "promises (ticks 2 (reject q x H)) = (promises H)
      (q := \<lparr>state = Rejected, result = x, handlers = []\<rparr>,
       r := \<lparr>state = Rejected, result = x, handlers = []\<rparr>,
       outer cx := (if Suc (counters H (count cx)) = total cx \<and> state_of H (outer cx) = Pending
          then \<lparr>state = Rejected,
                result = VAggregateError
                  (array_values (arr_set (arrays H (results cx)) i x))
                  ''All promises rejected.'', handlers = []\<rparr>
          else promises H (outer cx)),
       s := \<lparr>state = Fulfilled, result = VUndefined, handlers = []\<rparr>)"
    and "queue (ticks 2 (reject q x H)) = []"
    and "counters (ticks 2 (reject q x H)) =
           (counters H)(count cx := Suc (counters H (count cx)))"
    and "arrays (ticks 2 (reject q x H)) =
           (arrays H)(results cx := arr_set (arrays H (results cx)) i x)"
    and "next_promise (ticks 2 (reject q x H)) = next_promise H"
proof -
  let ?h1 = "\<lparr>onfulfilled = ResolveFn (outer cx), onrejected = NotCallable, downstream = r\<rparr>"
  let ?h2 = "\<lparr>onfulfilled = NotCallable, onrejected = AnyCatch cx i, downstream = s\<rparr>"
  define A where "A = reject q x H"
  have A: "promises A = (promises H)(q := \<lparr>state = Rejected, result = x, handlers = []\<rparr>)"
    "queue A = [(q, ?h1)]" "next_promise A = next_promise H"
    "counters A = counters H" "arrays A = arrays H"
    using q e by (simp_all add: A_def obs_reject_pending heap_defs)
  define B where "B = run_next A"
  have "B = reject r (result_of A q) (A\<lparr>queue := []\<rparr>)"
    unfolding B_def
    by (subst tick_pass_rejected[where q = q and hdl = ?h1 and js = "[]"])
       (simp_all add: A heap_defs)
  then have B0: "B = reject r x (A\<lparr>queue := []\<rparr>)" by (simp add: A heap_defs)
  have B: "promises B = (promises A)(r := \<lparr>state = Rejected, result = x, handlers = []\<rparr>)"
     "queue B = [(r, ?h2)]" "next_promise B = next_promise H"
     "counters B = counters H" "arrays B = arrays H"
    using d e by (simp_all add: B0 A heap_defs obs_reject_pending)
  define g where "g = store_at (results cx) i x (increment (count cx)
      (note_invoked s (B\<lparr>queue := []\<rparr>)))"
  have g: "promises g = promises B" "queue g = []" "next_promise g = next_promise H"
    "counters g = (counters H)(count cx := Suc (counters H (count cx)))"
    "arrays g = (arrays H)(results cx := arr_set (arrays H (results cx)) i x)"
    by (simp_all add: g_def B)
  define g' where "g' = (if counters g (count cx) = total cx
      then reject (outer cx) (VAggregateError (array_values (arrays g (results cx)))
             ''All promises rejected.'') g else g)"
  have g': "promises g' = (promises B)(outer cx :=
        (if Suc (counters H (count cx)) = total cx \<and> state_of H (outer cx) = Pending
          then \<lparr>state = Rejected,
                result = VAggregateError
                  (array_values (arr_set (arrays H (results cx)) i x))
                  ''All promises rejected.'', handlers = []\<rparr>
          else promises H (outer cx)))"
     "queue g' = []" "next_promise g' = next_promise H"
     "counters g' = counters g" "arrays g' = arrays g"
    using d o
    by (cases "state_of H (outer cx) = Pending";
        simp add: g'_def g B A heap_defs obs_reject_pending reject_settled fun_upd_idem)+
  define C where "C = run_next B"
  have "C = settle_with s (call_callback (AnyCatch cx i) (result_of B r)
       (note_invoked s (B\<lparr>queue := []\<rparr>)))"
    unfolding C_def
    by (subst tick_call_rejected[where q = r and hdl = ?h2 and js = "[]"])
       (simp_all add: B heap_defs)
  then have C1: "C = resolve s VUndefined g'"
    by (simp add: settle_with_def g_def g'_def B heap_defs Let_def)
  have "state_of g' s = Pending" using d e by (simp add: heap_defs g' B A)
  then have C: "C = fulfill s VUndefined g'" using C1 by (simp add: resolve_undefined)
  have t: "ticks 2 (reject q x H) = C"
    by (simp add: numeral_2_eq_2 C_def B_def A_def)
  show "promises (ticks 2 (reject q x H)) = (promises H)
      (q := \<lparr>state = Rejected, result = x, handlers = []\<rparr>,
       r := \<lparr>state = Rejected, result = x, handlers = []\<rparr>,
       outer cx := (if Suc (counters H (count cx)) = total cx \<and> state_of H (outer cx) = Pending
          then \<lparr>state = Rejected,
                result = VAggregateError
                  (array_values (arr_set (arrays H (results cx)) i x))
                  ''All promises rejected.'', handlers = []\<rparr>
          else promises H (outer cx)),
       s := \<lparr>state = Fulfilled, result = VUndefined, handlers = []\<rparr>)"
    unfolding t C by (simp add: g' B A)
  show "queue (ticks 2 (reject q x H)) = []"
    unfolding t C using d e by (simp add: g' B A heap_defs)
  show "counters (ticks 2 (reject q x H)) =
           (counters H)(count cx := Suc (counters H (count cx)))"
    unfolding t C by (simp add: g' g)
  show "arrays (ticks 2 (reject q x H)) =
           (arrays H)(results cx := arr_set (arrays H (results cx)) i x)"
    unfolding t C by (simp add: g' g)
  show "next_promise (ticks 2 (reject q x H)) = next_promise H"
    unfolding t C by (simp add: g')
qed


text \<open>Wiring one element that is a pending instance: the two records of the loop body.\<close>

lemma wire_one:
  assumes "q < next_promise H" "state_of H q = Pending" "handlers_of H q = []"
  shows "promises (snd (promise_catch (next_promise H) G (snd (promise_then q F NotCallable H))))
      = (promises H)
         (q := (promises H q)\<lparr>handlers := [\<lparr>onfulfilled = F, onrejected = NotCallable,
              downstream = next_promise H\<rparr>]\<rparr>,
          next_promise H := \<lparr>state = Pending, result = VUndefined,
              handlers = [\<lparr>onfulfilled = NotCallable, onrejected = G,
                 downstream = Suc (next_promise H)\<rparr>]\<rparr>,
          Suc (next_promise H) := new_instance)"
    and "next_promise (snd (promise_catch (next_promise H) G
            (snd (promise_then q F NotCallable H)))) = Suc (Suc (next_promise H))"
    and "queue (snd (promise_catch (next_promise H) G
            (snd (promise_then q F NotCallable H)))) = queue H"
    and "counters (snd (promise_catch (next_promise H) G
            (snd (promise_then q F NotCallable H)))) = counters H"
    and "arrays (snd (promise_catch (next_promise H) G
            (snd (promise_then q F NotCallable H)))) = arrays H"
proof -
  define H2 where "H2 = snd (promise_then q F NotCallable H)"
  have ne: "q \<noteq> next_promise H" using assms by simp
  have H2: "promises H2 = (promises H)(next_promise H := new_instance,
       q := (promises H q)\<lparr>handlers := [\<lparr>onfulfilled = F, onrejected = NotCallable,
              downstream = next_promise H\<rparr>]\<rparr>)"
    "next_promise H2 = Suc (next_promise H)" "queue H2 = queue H"
    "counters H2 = counters H" "arrays H2 = arrays H"
    using assms ne by (simp_all add: H2_def obs)
  have e: "snd (promise_catch (next_promise H) G H2) =
     register (next_promise H) \<lparr>onfulfilled = NotCallable, onrejected = G,
                 downstream = Suc (next_promise H)\<rparr> (alloc_instance H2)"
    by (simp add: promise_catch_def promise_then_eq H2)
  have p: "state (promises (alloc_instance H2) (next_promise H)) = Pending"
    using ne by (simp add: H2 new_instance_def)
  show "promises (snd (promise_catch (next_promise H) G (snd (promise_then q F NotCallable H))))
      = (promises H)
         (q := (promises H q)\<lparr>handlers := [\<lparr>onfulfilled = F, onrejected = NotCallable,
              downstream = next_promise H\<rparr>]\<rparr>,
          next_promise H := \<lparr>state = Pending, result = VUndefined,
              handlers = [\<lparr>onfulfilled = NotCallable, onrejected = G,
                 downstream = Suc (next_promise H)\<rparr>]\<rparr>,
          Suc (next_promise H) := new_instance)"
    unfolding H2_def[symmetric] e using ne
    by (auto simp add: obs_register_pending[OF p] H2 new_instance_def fun_eq_iff)
  show "next_promise (snd (promise_catch (next_promise H) G
            (snd (promise_then q F NotCallable H)))) = Suc (Suc (next_promise H))"
    unfolding H2_def[symmetric] e by (simp add: H2)
  show "queue (snd (promise_catch (next_promise H) G
            (snd (promise_then q F NotCallable H)))) = queue H"
    unfolding H2_def[symmetric] e by (simp add: obs_register_pending[OF p] H2)
  show "counters (snd (promise_catch (next_promise H) G
            (snd (promise_then q F NotCallable H)))) = counters H"
    unfolding H2_def[symmetric] e by (simp add: H2)
  show "arrays (snd (promise_catch (next_promise H) G
            (snd (promise_then q F NotCallable H)))) = arrays H"
    unfolding H2_def[symmetric] e by (simp add: H2)
qed

lemma all_each_wire:
  "all_each cx (map VPromise qs) i h =
     wire_each (AllThen cx) (\<lambda>_. AllCatch (outer cx)) qs i h"
  by (induction qs arbitrary: i h) (simp_all add: static_resolve_def split_def Let_def)

lemma any_each_wire:
  "any_each cx (map VPromise qs) i h =
     wire_each (\<lambda>_. ResolveFn (outer cx)) (AnyCatch cx) qs i h"
  by (induction qs arbitrary: i h) (simp_all add: static_resolve_def split_def Let_def)

lemma wire_each_frame:
  assumes "distinct qs"
    "\<forall>q\<in>set qs. q < next_promise H \<and> state_of H q = Pending \<and> handlers_of H q = []"
  shows "next_promise (wire_each F G qs i H) = next_promise H + 2 * length qs \<and>
     queue (wire_each F G qs i H) = queue H \<and>
     counters (wire_each F G qs i H) = counters H \<and>
     arrays (wire_each F G qs i H) = arrays H \<and>
     (\<forall>x<next_promise H. x \<notin> set qs \<longrightarrow> promises (wire_each F G qs i H) x = promises H x) \<and>
     (\<forall>j<length qs.
        promises (wire_each F G qs i H) (qs ! j) =
          (promises H (qs ! j))\<lparr>handlers := [\<lparr>onfulfilled = F (i + j),
             onrejected = NotCallable, downstream = next_promise H + 2 * j\<rparr>]\<rparr> \<and>
        promises (wire_each F G qs i H) (next_promise H + 2 * j) =
          \<lparr>state = Pending, result = VUndefined,
           handlers = [\<lparr>onfulfilled = NotCallable, onrejected = G (i + j),
              downstream = Suc (next_promise H + 2 * j)\<rparr>]\<rparr> \<and>
        promises (wire_each F G qs i H) (Suc (next_promise H + 2 * j)) = new_instance)"
  using assms
proof (induction qs arbitrary: i H)
  case Nil
  then show ?case by simp
next
  case (Cons q qs)
  let ?m = "next_promise H"
  define H3 where "H3 = snd (promise_catch ?m (G i) (snd (promise_then q (F i) NotCallable H)))"
  have q: "q < ?m" "state_of H q = Pending" "handlers_of H q = []"
    using Cons.prems by simp_all
  note w = wire_one[OF q, of "G i" "F i", folded H3_def]
  have d: "distinct qs" "q \<notin> set qs" using Cons.prems by simp_all
  have below: "\<And>x. x \<in> set qs \<Longrightarrow> x < ?m" using Cons.prems by simp
  have pre: "\<forall>x\<in>set qs. x < next_promise H3 \<and> state_of H3 x = Pending \<and> handlers_of H3 x = []"
  proof
    fix x assume x: "x \<in> set qs"
    then have "x \<noteq> q" "x < ?m" using d below by auto
    then have px: "promises H3 x = promises H x" by (simp add: w)
    have "next_promise H3 = Suc (Suc ?m)" by (simp add: w)
    then show "x < next_promise H3 \<and> state_of H3 x = Pending \<and> handlers_of H3 x = []"
      using Cons.prems x px by (auto simp add: heap_defs less_SucI)
  qed
  note ih = Cons.IH[OF d(1) pre, of "Suc i"]
  let ?W = "wire_each F G qs (Suc i) H3"
  have e: "wire_each F G (q # qs) i H = ?W" by (simp add: H3_def)
  have keep: "promises ?W x = promises H3 x" if "x < Suc (Suc ?m)" "x \<notin> set qs" for x
    using ih that by (simp add: w)
  have 1: "next_promise ?W = ?m + 2 * length (q # qs)" using ih by (simp add: w)
  have 2: "queue ?W = queue H" "counters ?W = counters H" "arrays ?W = arrays H"
    using ih by (simp_all add: w)
  have 3: "promises ?W x = promises H x" if "x < ?m" "x \<notin> set (q # qs)" for x
  proof -
    have "promises ?W x = promises H3 x" using that by (intro keep) simp_all
    then show ?thesis using that by (simp add: w)
  qed
  have 4: "promises ?W ((q # qs) ! j) =
          (promises H ((q # qs) ! j))\<lparr>handlers := [\<lparr>onfulfilled = F (i + j),
             onrejected = NotCallable, downstream = ?m + 2 * j\<rparr>]\<rparr> \<and>
        promises ?W (?m + 2 * j) =
          \<lparr>state = Pending, result = VUndefined,
           handlers = [\<lparr>onfulfilled = NotCallable, onrejected = G (i + j),
              downstream = Suc (?m + 2 * j)\<rparr>]\<rparr> \<and>
        promises ?W (Suc (?m + 2 * j)) = new_instance" if j: "j < length (q # qs)" for j
  proof (cases j)
    case 0
    have "?m \<notin> set qs" "Suc ?m \<notin> set qs" using below by fastforce+
    then have "promises ?W q = promises H3 q" "promises ?W ?m = promises H3 ?m"
       "promises ?W (Suc ?m) = promises H3 (Suc ?m)"
      using q(1) d(2) by (simp_all add: keep)
    then show ?thesis using 0 q(1) by (simp add: w)
  next
    case (Suc j')
    then have j': "j' < length qs" using j by simp
    have "qs ! j' \<in> set qs" using j' by simp
    then have "qs ! j' \<noteq> q" "qs ! j' < ?m" using d below by auto
    then have px: "promises H3 (qs ! j') = promises H (qs ! j')" by (simp add: w)
    have n3: "next_promise H3 = Suc (Suc ?m)" by (simp add: w)
    from ih j' have "promises ?W (qs ! j') =
          (promises H3 (qs ! j'))\<lparr>handlers := [\<lparr>onfulfilled = F (Suc i + j'),
             onrejected = NotCallable, downstream = next_promise H3 + 2 * j'\<rparr>]\<rparr> \<and>
        promises ?W (next_promise H3 + 2 * j') =
          \<lparr>state = Pending, result = VUndefined,
           handlers = [\<lparr>onfulfilled = NotCallable, onrejected = G (Suc i + j'),
              downstream = Suc (next_promise H3 + 2 * j')\<rparr>]\<rparr> \<and>
        promises ?W (Suc (next_promise H3 + 2 * j')) = new_instance" by blast
    then show ?thesis unfolding px n3 using Suc by simp
  qed
  show ?case unfolding e using 1 2 3 4 by blast
qed

lemma play_snoc: "play qs (evs @ [ev]) h = settle_element qs ev (play qs evs h)"
  by (induction evs arbitrary: h) simp_all

lemma find_snoc:
  "find P (xs @ [x]) = (case find P xs of Some y \<Rightarrow> Some y | None \<Rightarrow> if P x then Some x else None)"
  by (induction xs) simp_all

lemma slot_arr_set: "slot (arr_set xs i v) j = (if j = i then Some v else slot xs j)"
  by (auto simp add: slot_def arr_set_def nth_append)

lemma length_arr_set: "length (arr_set xs i v) = max (length xs) (Suc i)"
  by (simp add: arr_set_def)

lemma elements_room:
  assumes "distinct (map element_of evs)" "\<forall>ev\<in>set evs. element_of ev < n"
    "i < n" "i \<notin> element_of ` set evs"
  shows "length evs < n"
proof -
  have "insert i (element_of ` set evs) \<subseteq> {..<n}" using assms by auto
  then have "card (insert i (element_of ` set evs)) \<le> n"
    using card_mono[of "{..<n}" "insert i (element_of ` set evs)"] by simp
  moreover have "card (element_of ` set evs) = length evs"
    using assms(1) by (metis distinct_card length_map set_map)
  ultimately show ?thesis using assms(4) by simp
qed

lemma elements_full:
  assumes "distinct (map element_of evs)" "\<forall>ev\<in>set evs. element_of ev < n"
    "length evs = n" "i < n"
  shows "i \<in> element_of ` set evs"
  using elements_room[OF assms(1,2,4)] assms(3) by blast

lemma find_none_iff: "find P xs = None \<longleftrightarrow> (\<forall>x\<in>set xs. \<not> P x)"
  by (induction xs) auto

lemma find_element:
  assumes "i \<in> element_of ` set evs"
  shows "\<exists>ev. find (\<lambda>ev. element_of ev = i) evs = Some ev \<and> ev \<in> set evs \<and> element_of ev = i"
  using assms by (induction evs) auto


lemma wired_frame:
  assumes "wired H q F G r" "promises H' q = promises H q" "promises H' r = promises H r"
    "promises H' (Suc r) = promises H (Suc r)"
  shows "wired H' q F G r"
  using assms by (simp add: wired_def heap_defs)

lemma promise_all_instances:
  assumes "qs \<noteq> []"
  shows "promise_all (map VPromise qs) h =
     (next_promise h,
      wire_each (AllThen \<lparr>outer = next_promise h, results = next_array h,
                           count = next_counter h, total = length qs\<rparr>)
        (\<lambda>_. AllCatch (next_promise h)) qs 0
        (alloc_instance (snd (new_counter (snd (new_array h))))))"
  using assms
  by (simp add: promise_all_def new_array_def new_counter_def construct_def Let_def
        all_each_wire alloc_instance_def)

lemma obs_new_cells [simp]:
  "promises (snd (new_counter (snd (new_array h)))) = promises h"
  "next_promise (snd (new_counter (snd (new_array h)))) = next_promise h"
  "queue (snd (new_counter (snd (new_array h)))) = queue h"
  "arrays (snd (new_counter (snd (new_array h)))) = (arrays h)(next_array h := [])"
  "counters (snd (new_counter (snd (new_array h)))) = (counters h)(next_counter h := 0)"
  by (simp_all add: new_array_def new_counter_def)

lemma all_inv_init:
  assumes "qs \<noteq> []" "distinct qs"
    "\<forall>q\<in>set qs. q < next_promise h \<and> state_of h q = Pending \<and> handlers_of h q = []"
    "queue h = []"
  shows "all_inv qs \<lparr>outer = next_promise h, results = next_array h,
                      count = next_counter h, total = length qs\<rparr> []
           (snd (promise_all (map VPromise qs) h))"
proof -
  let ?n = "next_promise h"
  let ?cx = "\<lparr>outer = ?n, results = next_array h, count = next_counter h, total = length qs\<rparr>"
  define H1 where "H1 = alloc_instance (snd (new_counter (snd (new_array h))))"
  have H1: "promises H1 = (promises h)(?n := new_instance)" "next_promise H1 = Suc ?n"
    "queue H1 = []" "arrays H1 (next_array h) = []" "counters H1 (next_counter h) = 0"
    using assms(4) by (simp_all add: H1_def)
  have pre: "\<forall>q\<in>set qs. q < next_promise H1 \<and> state_of H1 q = Pending \<and> handlers_of H1 q = []"
    using assms(3) by (auto simp add: H1 heap_defs)
  let ?W = "wire_each (AllThen ?cx) (\<lambda>_. AllCatch ?n) qs 0 H1"
  have e: "snd (promise_all (map VPromise qs) h) = ?W"
    by (simp add: promise_all_instances[OF assms(1)] H1_def)
  note f = wire_each_frame[OF assms(2) pre, of "AllThen ?cx" "\<lambda>_. AllCatch ?n" 0]
  have n: "?n \<notin> set qs" using assms(3) by auto
  have o: "promises ?W ?n = new_instance" using f n by (simp add: H1)
  have w: "wired ?W (qs ! i) (AllThen ?cx i) (AllCatch ?n) (Suc (?n + 2 * i))"
    if "i < length qs" for i
  proof -
    have "qs ! i \<in> set qs" using that by simp
    then have "qs ! i \<noteq> ?n" "state_of h (qs ! i) = Pending" using assms(3) by auto
    then show ?thesis using f that by (simp add: wired_def heap_defs H1)
  qed
  have "queue ?W = []" "next_promise ?W = Suc (?n + 2 * length qs)"
     "counters ?W (next_counter h) = 0" "arrays ?W (next_array h) = []"
    using f by (simp_all add: H1)
  then show ?thesis unfolding e using o w assms(1)
    by (simp add: all_inv_def slot_def)
qed

lemma all_inv_step:
  assumes inv: "all_inv qs cx evs H"
    and b: "distinct qs" "\<forall>q\<in>set qs. q < outer cx" "total cx = length qs"
    and ev: "element_of ev < length qs" "element_of ev \<notin> element_of ` set evs"
      "is_rejection ev \<or> plain (value_of ev)"
    and evs: "distinct (map element_of evs)" "\<forall>ev\<in>set evs. element_of ev < length qs"
  shows "all_inv qs cx (evs @ [ev]) (settle_element qs ev H)"
proof -
  let ?n = "outer cx" and ?a = "results cx" and ?k = "count cx" and ?N = "length qs"
  let ?i = "element_of ev"
  let ?q = "qs ! ?i" and ?r = "Suc (?n + 2 * ?i)" and ?s = "Suc (Suc (?n + 2 * ?i))"
  let ?H' = "settle_element qs ev H"
  have I: "queue H = []" "next_promise H = Suc (?n + 2 * ?N)"
    "\<And>i. i < ?N \<Longrightarrow> i \<notin> element_of ` set evs \<Longrightarrow>
         wired H (qs ! i) (AllThen cx i) (AllCatch ?n) (Suc (?n + 2 * i))"
    "counters H ?k = length (filter (\<lambda>ev. \<not> is_rejection ev) evs)"
    "length (arrays H ?a) \<le> ?N"
    "\<And>i. slot (arrays H ?a) i =
         (case find (\<lambda>ev. element_of ev = i) evs of
            Some (Fulfils j v) \<Rightarrow> Some v | _ \<Rightarrow> None)"
    "case find is_rejection evs of
         Some ev \<Rightarrow> state_of H ?n = Rejected \<and> result_of H ?n = value_of ev
       | None \<Rightarrow>
           if length evs = ?N
           then state_of H ?n = Fulfilled \<and> result_of H ?n = VArray ?a
           else promises H ?n = new_instance"
    using inv by (simp_all add: all_inv_def)
  have room: "length evs < ?N" using elements_room[OF evs ev(1,2)] .
  have qn: "?q < ?n" using b(2) ev(1) by simp
  have wi: "wired H ?q (AllThen cx ?i) (AllCatch ?n) ?r" using I(3)[OF ev(1,2)] .
  have e: "state_of H ?q = Pending"
      "handlers_of H ?q = [\<lparr>onfulfilled = AllThen cx ?i, onrejected = NotCallable,
          downstream = ?r\<rparr>]"
      "state_of H ?r = Pending"
      "handlers_of H ?r = [\<lparr>onfulfilled = NotCallable, onrejected = AllCatch ?n,
          downstream = ?s\<rparr>]"
      "state_of H ?s = Pending" "handlers_of H ?s = []"
    using wi by (simp_all add: wired_def heap_defs new_instance_def)
  have o: "state_of H ?n = Pending \<longrightarrow> handlers_of H ?n = []"
    using I(7) room
    by (auto simp add: heap_defs new_instance_def split: option.splits)
  have d: "?q < next_promise H" "?r < next_promise H" "?q \<noteq> ?r" "?q \<noteq> ?s" "?q \<noteq> ?n"
      "?r \<noteq> ?s" "?r \<noteq> ?n" "?s \<noteq> ?n"
    using qn ev(1) by (simp_all add: I(2))
  have frame: "wired G (qs ! j) (AllThen cx j) (AllCatch ?n) (Suc (?n + 2 * j))"
    if j: "j < ?N" "j \<notin> element_of ` set (evs @ [ev])"
      and G: "\<And>x. x \<noteq> ?q \<Longrightarrow> x \<noteq> ?r \<Longrightarrow> x \<noteq> ?s \<Longrightarrow> x \<noteq> ?n \<Longrightarrow>
                  promises G x = promises H x" for j G
  proof -
    have ji: "j \<noteq> ?i" "j \<notin> element_of ` set evs" using j(2) by auto
    have "qs ! j \<noteq> ?q" using ji(1) j(1) ev(1) b(1) by (simp add: nth_eq_iff_index_eq)
    moreover have "qs ! j < ?n" using b(2) j(1) by simp
    ultimately have 1: "promises G (qs ! j) = promises H (qs ! j)" by (intro G) simp_all
    have 2: "promises G (Suc (?n + 2 * j)) = promises H (Suc (?n + 2 * j))"
      using ji(1) qn by (intro G) presburger+
    have 3: "promises G (Suc (Suc (?n + 2 * j))) = promises H (Suc (Suc (?n + 2 * j)))"
      using ji(1) qn by (intro G) presburger+
    show ?thesis using wired_frame[OF I(3)[OF j(1) ji(2)] 1 2 3] .
  qed
  show ?thesis
  proof (cases ev)
    case (Fulfils i v)
    then have [simp]: "?i = i" by simp
    have y: "plain v" using ev(3) Fulfils by simp
    have H': "?H' = ticks 2 (resolve ?q v H)"
      using ev(1) Fulfils by (simp add: settle_element_def)
    note st = all_step_fulfil[OF I(1) e o d y, folded H']
    have nr: "find is_rejection (evs @ [ev]) = find is_rejection evs"
      using Fulfils by (simp add: find_snoc split: option.splits)
    have 1: "queue ?H' = []" "next_promise ?H' = Suc (?n + 2 * ?N)"
      using st I(2) by simp_all
    have 2: "wired ?H' (qs ! j) (AllThen cx j) (AllCatch ?n) (Suc (?n + 2 * j))"
      if "j < ?N" "j \<notin> element_of ` set (evs @ [ev])" for j
      using that by (rule frame) (simp add: st(1))
    have 3: "counters ?H' ?k = length (filter (\<lambda>ev. \<not> is_rejection ev) (evs @ [ev]))"
      using st(3) I(4) Fulfils by simp
    have 4: "length (arrays ?H' ?a) \<le> ?N"
      using st(4) I(5) ev(1) by (simp add: length_arr_set)
    have fi: "find (\<lambda>ev. element_of ev = i) evs = None"
      using ev(2) by (auto simp add: find_none_iff)
    have 5: "slot (arrays ?H' ?a) j =
         (case find (\<lambda>ev. element_of ev = j) (evs @ [ev]) of
            Some (Fulfils j v) \<Rightarrow> Some v | _ \<Rightarrow> None)" for j
      using st(4) I(6)[of j] fi Fulfils
      by (cases "j = i") (auto simp add: slot_arr_set find_snoc split: option.splits)
    have 6: "case find is_rejection (evs @ [ev]) of
         Some ev \<Rightarrow> state_of ?H' ?n = Rejected \<and> result_of ?H' ?n = value_of ev
       | None \<Rightarrow>
           if length (evs @ [ev]) = ?N
           then state_of ?H' ?n = Fulfilled \<and> result_of ?H' ?n = VArray ?a
           else promises ?H' ?n = new_instance"
    proof (cases "find is_rejection evs")
      case None
      then have "\<forall>x\<in>set evs. \<not> is_rejection x" by (simp add: find_none_iff)
      then have c: "counters H ?k = length evs" using I(4) by simp
      have p: "promises H ?n = new_instance" using I(7) None room by simp
      then have "state_of H ?n = Pending" by (simp add: heap_defs new_instance_def)
      then show ?thesis using None nr st(1) d c p b(3)
        by (auto simp add: heap_defs)
    next
      case (Some x)
      then have "state_of H ?n = Rejected" "result_of H ?n = value_of x" using I(7) by simp_all
      then show ?thesis using Some nr st(1) d by (simp add: heap_defs)
    qed
    show ?thesis unfolding all_inv_def using 1 2 3 4 5 6 by blast
  next
    case (Rejects i x)
    then have [simp]: "?i = i" by simp
    have H': "?H' = ticks 2 (reject ?q x H)"
      using ev(1) Rejects by (simp add: settle_element_def)
    note st = all_step_reject[OF I(1) e o d, of x, folded H']
    have 1: "queue ?H' = []" "next_promise ?H' = Suc (?n + 2 * ?N)"
      using st I(2) by simp_all
    have 2: "wired ?H' (qs ! j) (AllThen cx j) (AllCatch ?n) (Suc (?n + 2 * j))"
      if "j < ?N" "j \<notin> element_of ` set (evs @ [ev])" for j
      using that by (rule frame) (simp add: st(1))
    have 3: "counters ?H' ?k = length (filter (\<lambda>ev. \<not> is_rejection ev) (evs @ [ev]))"
      using st(3) I(4) Rejects by simp
    have 4: "length (arrays ?H' ?a) \<le> ?N" using st(4) I(5) by simp
    have fi: "find (\<lambda>ev. element_of ev = i) evs = None"
      using ev(2) by (auto simp add: find_none_iff)
    have 5: "slot (arrays ?H' ?a) j =
         (case find (\<lambda>ev. element_of ev = j) (evs @ [ev]) of
            Some (Fulfils j v) \<Rightarrow> Some v | _ \<Rightarrow> None)" for j
      using st(4) I(6)[of j] fi Rejects
      by (cases "j = i") (auto simp add: find_snoc split: option.splits)
    have 6: "case find is_rejection (evs @ [ev]) of
         Some ev \<Rightarrow> state_of ?H' ?n = Rejected \<and> result_of ?H' ?n = value_of ev
       | None \<Rightarrow>
           if length (evs @ [ev]) = ?N
           then state_of ?H' ?n = Fulfilled \<and> result_of ?H' ?n = VArray ?a
           else promises ?H' ?n = new_instance"
    proof (cases "find is_rejection evs")
      case None
      have p: "promises H ?n = new_instance" using I(7) None room by simp
      then have "state_of H ?n = Pending" by (simp add: heap_defs new_instance_def)
      then show ?thesis using None Rejects st(1) d
        by (simp add: heap_defs find_snoc)
    next
      case (Some y)
      then have "state_of H ?n = Rejected" "result_of H ?n = value_of y" using I(7) by simp_all
      then show ?thesis using Some st(1) d by (simp add: heap_defs find_snoc)
    qed
    show ?thesis unfolding all_inv_def using 1 2 3 4 5 6 by blast
  qed
qed


lemma all_inv_play:
  assumes inv: "all_inv qs cx [] H"
    and b: "distinct qs" "\<forall>q\<in>set qs. q < outer cx" "total cx = length qs"
    and evs: "distinct (map element_of evs)"
      "\<forall>ev\<in>set evs. element_of ev < length qs \<and> (is_rejection ev \<or> plain (value_of ev))"
  shows "all_inv qs cx evs (play qs evs H)"
  using evs
proof (induction evs rule: rev_induct)
  case Nil
  then show ?case using inv by simp
next
  case (snoc ev evs)
  have d: "distinct (map element_of evs)" "element_of ev \<notin> element_of ` set evs"
    using snoc.prems(1) by simp_all
  have r: "\<forall>ev\<in>set evs. element_of ev < length qs \<and> (is_rejection ev \<or> plain (value_of ev))"
    "element_of ev < length qs" "is_rejection ev \<or> plain (value_of ev)"
    using snoc.prems(2) by simp_all
  have r': "\<forall>ev\<in>set evs. element_of ev < length qs" using r(1) by simp
  from all_inv_step[OF snoc.IH[OF d(1) r(1)] b r(2) d(2) r(3) d(1) r']
  show ?case by (simp add: play_snoc)
qed

text \<open>Claim C7. \<^verbatim>\<open>MyPromise.all\<close> on an empty sequence fulfils at once with an empty
  array. On a non-empty sequence of distinct pending instances whose elements settle
  one after the other in any order, each with a value that is no thenable or with a
  reason: as soon as one element has rejected, the result is rejected with the reason
  of the first element that rejected, whatever settles later; with no rejection it is
  pending until every element has fulfilled, and then fulfilled with the array whose
  index \<open>i\<close> holds the value of element \<open>i\<close>.\<close>

theorem all_follows_elements:
  assumes "qs \<noteq> []" "distinct qs"
    "\<forall>q\<in>set qs. q < next_promise h \<and> state_of h q = Pending \<and> handlers_of h q = []"
    "queue h = []"
    "distinct (map element_of evs)"
    "\<forall>ev\<in>set evs. element_of ev < length qs \<and> (is_rejection ev \<or> plain (value_of ev))"
  shows "fst (promise_all (map VPromise qs) h) = next_promise h \<and>
    queue (play qs evs (snd (promise_all (map VPromise qs) h))) = [] \<and>
    (case find is_rejection evs of
       Some ev \<Rightarrow>
         state_of (play qs evs (snd (promise_all (map VPromise qs) h))) (next_promise h)
           = Rejected \<and>
         result_of (play qs evs (snd (promise_all (map VPromise qs) h))) (next_promise h)
           = value_of ev
     | None \<Rightarrow>
         if length evs = length qs
         then state_of (play qs evs (snd (promise_all (map VPromise qs) h))) (next_promise h)
                = Fulfilled \<and>
              result_of (play qs evs (snd (promise_all (map VPromise qs) h))) (next_promise h)
                = VArray (next_array h) \<and>
              arrays (play qs evs (snd (promise_all (map VPromise qs) h))) (next_array h)
                = values_by_element evs (length qs)
         else state_of (play qs evs (snd (promise_all (map VPromise qs) h))) (next_promise h)
                = Pending) \<and>
    state_of (snd (promise_all [] k)) (next_promise k) = Fulfilled \<and>
    result_of (snd (promise_all [] k)) (next_promise k) = VArray (Suc (next_array k)) \<and>
    arrays (snd (promise_all [] k)) (Suc (next_array k)) = []"
proof -
  let ?n = "next_promise h" and ?a = "next_array h" and ?N = "length qs"
  let ?cx = "\<lparr>outer = ?n, results = ?a, count = next_counter h, total = ?N\<rparr>"
  let ?H = "play qs evs (snd (promise_all (map VPromise qs) h))"
  have b: "distinct qs" "\<forall>q\<in>set qs. q < outer ?cx" "total ?cx = length qs"
    using assms(2,3) by simp_all
  from all_inv_play[OF all_inv_init[OF assms(1-4)] b assms(5,6)]
  have inv: "all_inv qs ?cx evs ?H" .
  have sel: "outer ?cx = ?n" "results ?cx = ?a" by simp_all
  have I: "queue ?H = []" "length (arrays ?H ?a) \<le> ?N"
    "\<And>i. slot (arrays ?H ?a) i =
         (case find (\<lambda>ev. element_of ev = i) evs of
            Some (Fulfils j v) \<Rightarrow> Some v | _ \<Rightarrow> None)"
    "case find is_rejection evs of
         Some ev \<Rightarrow> state_of ?H ?n = Rejected \<and> result_of ?H ?n = value_of ev
       | None \<Rightarrow>
           if length evs = ?N
           then state_of ?H ?n = Fulfilled \<and> result_of ?H ?n = VArray ?a
           else promises ?H ?n = new_instance"
    using inv unfolding all_inv_def sel by blast+
  have 1: "fst (promise_all (map VPromise qs) h) = ?n"
    by (simp add: promise_all_instances[OF assms(1)])
  have arr: "arrays ?H ?a = values_by_element evs ?N"
    if none: "find is_rejection evs = None" and full: "length evs = ?N"
  proof -
    have nr: "\<forall>ev\<in>set evs. \<not> is_rejection ev" using none by (simp add: find_none_iff)
    have el: "\<forall>ev\<in>set evs. element_of ev < ?N" using assms(6) by simp
    have sl: "slot (arrays ?H ?a) i =
        map_option value_of (find (\<lambda>ev. element_of ev = i) evs) \<and>
        slot (arrays ?H ?a) i \<noteq> None" if i: "i < ?N" for i
    proof -
      from elements_full[OF assms(5) el full i] find_element
      obtain ev where ev: "find (\<lambda>ev. element_of ev = i) evs = Some ev" "ev \<in> set evs"
        by blast
      then have "\<not> is_rejection ev" using nr by simp
      then obtain j v where "ev = Fulfils j v" by (cases ev) simp_all
      then show ?thesis using I(3)[of i] ev by simp
    qed
    have len: "length (arrays ?H ?a) = ?N"
    proof (rule ccontr)
      assume "length (arrays ?H ?a) \<noteq> ?N"
      then have l: "length (arrays ?H ?a) < ?N" using I(2) by simp
      have "slot (arrays ?H ?a) (length (arrays ?H ?a)) = None" by (simp add: slot_def)
      moreover have "slot (arrays ?H ?a) (length (arrays ?H ?a)) \<noteq> None"
        using sl[OF l] by blast
      ultimately show False by blast
    qed
    show ?thesis
      by (rule nth_equalityI)
         (use len sl in \<open>auto simp add: values_by_element_def slot_def\<close>)
  qed
  have 2: "case find is_rejection evs of
       Some ev \<Rightarrow> state_of ?H ?n = Rejected \<and> result_of ?H ?n = value_of ev
     | None \<Rightarrow>
         if length evs = ?N
         then state_of ?H ?n = Fulfilled \<and> result_of ?H ?n = VArray ?a \<and>
              arrays ?H ?a = values_by_element evs ?N
         else state_of ?H ?n = Pending"
    using I(4) arr
    by (auto simp add: heap_defs new_instance_def split: option.splits)
  have 3: "state_of (snd (promise_all [] k)) (next_promise k) = Fulfilled \<and>
    result_of (snd (promise_all [] k)) (next_promise k) = VArray (Suc (next_array k)) \<and>
    arrays (snd (promise_all [] k)) (Suc (next_array k)) = []"
    by (simp add: promise_all_def new_array_def new_counter_def construct_def Let_def
          resolve_eq fulfill_def runHandlers_def heap_defs new_instance_def)
  show ?thesis using 1 I(1) 2 3 by simp
qed


theorem all_follows_elements_witness:
  "distinct [0::nat, 1] \<and>
   0 < next_promise (snd (new_promise [] None (snd (new_promise [] None empty_heap)))) \<and>
   1 < next_promise (snd (new_promise [] None (snd (new_promise [] None empty_heap)))) \<and>
   state_of (snd (new_promise [] None (snd (new_promise [] None empty_heap)))) 0 = Pending \<and>
   state_of (snd (new_promise [] None (snd (new_promise [] None empty_heap)))) 1 = Pending \<and>
   queue (snd (new_promise [] None (snd (new_promise [] None empty_heap)))) = [] \<and>
   plain (VNum 10) \<and> plain (VNum 20) \<and>
   state_of (play [0, 1] [Fulfils 1 (VNum 20), Fulfils 0 (VNum 10)]
      (snd (promise_all [VPromise 0, VPromise 1]
         (snd (new_promise [] None (snd (new_promise [] None empty_heap))))))) 2 = Fulfilled \<and>
   result_of (play [0, 1] [Fulfils 1 (VNum 20), Fulfils 0 (VNum 10)]
      (snd (promise_all [VPromise 0, VPromise 1]
         (snd (new_promise [] None (snd (new_promise [] None empty_heap))))))) 2 = VArray 0 \<and>
   arrays (play [0, 1] [Fulfils 1 (VNum 20), Fulfils 0 (VNum 10)]
      (snd (promise_all [VPromise 0, VPromise 1]
         (snd (new_promise [] None (snd (new_promise [] None empty_heap))))))) 0
     = [Some (VNum 10), Some (VNum 20)] \<and>
   state_of (play [0, 1] [Rejects 1 (VStr ''no''), Fulfils 0 (VNum 10)]
      (snd (promise_all [VPromise 0, VPromise 1]
         (snd (new_promise [] None (snd (new_promise [] None empty_heap))))))) 2 = Rejected \<and>
   result_of (play [0, 1] [Rejects 1 (VStr ''no''), Fulfils 0 (VNum 10)]
      (snd (promise_all [VPromise 0, VPromise 1]
         (snd (new_promise [] None (snd (new_promise [] None empty_heap))))))) 2 = VStr ''no''"
proof -
  let ?h = "snd (new_promise [] None (snd (new_promise [] None empty_heap)))"
  have v: "next_promise ?h = 2" "next_array ?h = 0" "state_of ?h 0 = Pending"
    "state_of ?h 1 = Pending" "handlers_of ?h 0 = []" "handlers_of ?h 1 = []" "queue ?h = []"
    by (simp_all add: eval_defs)
  have a: "[0::nat, 1] \<noteq> []" "distinct [0::nat, 1]"
    "\<forall>q\<in>set [0::nat, 1]. q < next_promise ?h \<and> state_of ?h q = Pending \<and> handlers_of ?h q = []"
    "queue ?h = []"
    using v by simp_all
  have p: "plain (VNum 10)" "plain (VNum 20)" by (simp_all add: plain_def)
  have e1: "distinct (map element_of [Fulfils 1 (VNum 20), Fulfils 0 (VNum 10)])"
    "\<forall>ev\<in>set [Fulfils 1 (VNum 20), Fulfils 0 (VNum 10)].
       element_of ev < length [0::nat, 1] \<and> (is_rejection ev \<or> plain (value_of ev))"
    using p by simp_all
  have e2: "distinct (map element_of [Rejects 1 (VStr ''no''), Fulfils 0 (VNum 10)])"
    "\<forall>ev\<in>set [Rejects 1 (VStr ''no''), Fulfils 0 (VNum 10)].
       element_of ev < length [0::nat, 1] \<and> (is_rejection ev \<or> plain (value_of ev))"
    using p by simp_all
  have u: "[0..<2] = [0, Suc 0]" by (simp add: upt_rec numeral_2_eq_2)
  show ?thesis
    using all_follows_elements [OF a e1] all_follows_elements [OF a e2] v p
    by (simp add: values_by_element_def u)
qed


lemma promise_any_instances:
  assumes "qs \<noteq> []"
  shows "promise_any (map VPromise qs) h =
     (next_promise h,
      wire_each (\<lambda>_. ResolveFn (next_promise h))
        (AnyCatch \<lparr>outer = next_promise h, results = next_array h,
                           count = next_counter h, total = length qs\<rparr>) qs 0
        (alloc_instance (snd (new_counter (snd (new_array h))))))"
  using assms
  by (simp add: promise_any_def new_array_def new_counter_def construct_def Let_def
        any_each_wire alloc_instance_def)

lemma any_inv_init:
  assumes "qs \<noteq> []" "distinct qs"
    "\<forall>q\<in>set qs. q < next_promise h \<and> state_of h q = Pending \<and> handlers_of h q = []"
    "queue h = []"
  shows "any_inv qs \<lparr>outer = next_promise h, results = next_array h,
                      count = next_counter h, total = length qs\<rparr> []
           (snd (promise_any (map VPromise qs) h))"
proof -
  let ?n = "next_promise h"
  let ?cx = "\<lparr>outer = ?n, results = next_array h, count = next_counter h, total = length qs\<rparr>"
  define H1 where "H1 = alloc_instance (snd (new_counter (snd (new_array h))))"
  have H1: "promises H1 = (promises h)(?n := new_instance)" "next_promise H1 = Suc ?n"
    "queue H1 = []" "arrays H1 (next_array h) = []" "counters H1 (next_counter h) = 0"
    using assms(4) by (simp_all add: H1_def)
  have pre: "\<forall>q\<in>set qs. q < next_promise H1 \<and> state_of H1 q = Pending \<and> handlers_of H1 q = []"
    using assms(3) by (auto simp add: H1 heap_defs)
  let ?W = "wire_each (\<lambda>_. ResolveFn ?n) (AnyCatch ?cx) qs 0 H1"
  have e: "snd (promise_any (map VPromise qs) h) = ?W"
    by (simp add: promise_any_instances[OF assms(1)] H1_def)
  note f = wire_each_frame[OF assms(2) pre, of "\<lambda>_. ResolveFn ?n" "AnyCatch ?cx" 0]
  have n: "?n \<notin> set qs" using assms(3) by auto
  have o: "promises ?W ?n = new_instance" using f n by (simp add: H1)
  have w: "wired ?W (qs ! i) (ResolveFn ?n) (AnyCatch ?cx i) (Suc (?n + 2 * i))"
    if "i < length qs" for i
  proof -
    have "qs ! i \<in> set qs" using that by simp
    then have "qs ! i \<noteq> ?n" "state_of h (qs ! i) = Pending" using assms(3) by auto
    then show ?thesis using f that by (simp add: wired_def heap_defs H1)
  qed
  have "queue ?W = []" "next_promise ?W = Suc (?n + 2 * length qs)"
     "counters ?W (next_counter h) = 0" "arrays ?W (next_array h) = []"
    using f by (simp_all add: H1)
  then show ?thesis unfolding e using o w assms(1)
    by (simp add: any_inv_def slot_def)
qed

lemma any_inv_step:
  assumes inv: "any_inv qs cx evs H"
    and b: "distinct qs" "\<forall>q\<in>set qs. q < outer cx" "total cx = length qs"
    and ev: "element_of ev < length qs" "element_of ev \<notin> element_of ` set evs"
      "is_rejection ev \<or> plain (value_of ev)"
    and evs: "distinct (map element_of evs)" "\<forall>ev\<in>set evs. element_of ev < length qs"
  shows "any_inv qs cx (evs @ [ev]) (settle_element qs ev H)"
proof -
  let ?n = "outer cx" and ?a = "results cx" and ?k = "count cx" and ?N = "length qs"
  let ?i = "element_of ev"
  let ?q = "qs ! ?i" and ?r = "Suc (?n + 2 * ?i)" and ?s = "Suc (Suc (?n + 2 * ?i))"
  let ?H' = "settle_element qs ev H"
  let ?msg = "''All promises rejected.''"
  have I: "queue H = []" "next_promise H = Suc (?n + 2 * ?N)"
    "\<And>i. i < ?N \<Longrightarrow> i \<notin> element_of ` set evs \<Longrightarrow>
         wired H (qs ! i) (ResolveFn ?n) (AnyCatch cx i) (Suc (?n + 2 * i))"
    "counters H ?k = length (filter is_rejection evs)"
    "length (arrays H ?a) \<le> ?N"
    "\<And>i. slot (arrays H ?a) i =
         (case find (\<lambda>ev. element_of ev = i) evs of
            Some (Rejects j e) \<Rightarrow> Some e | _ \<Rightarrow> None)"
    "case find (\<lambda>ev. \<not> is_rejection ev) evs of
         Some ev \<Rightarrow> state_of H ?n = Fulfilled \<and> result_of H ?n = value_of ev
       | None \<Rightarrow>
           if length evs = ?N
           then state_of H ?n = Rejected \<and>
                result_of H ?n = VAggregateError (array_values (arrays H ?a)) ?msg
           else promises H ?n = new_instance"
    using inv unfolding any_inv_def by blast+
  have room: "length evs < ?N" using elements_room[OF evs ev(1,2)] .
  have qn: "?q < ?n" using b(2) ev(1) by simp
  have wi: "wired H ?q (ResolveFn ?n) (AnyCatch cx ?i) ?r" using I(3)[OF ev(1,2)] .
  have e: "state_of H ?q = Pending"
      "handlers_of H ?q = [\<lparr>onfulfilled = ResolveFn ?n, onrejected = NotCallable,
          downstream = ?r\<rparr>]"
      "state_of H ?r = Pending"
      "handlers_of H ?r = [\<lparr>onfulfilled = NotCallable, onrejected = AnyCatch cx ?i,
          downstream = ?s\<rparr>]"
      "state_of H ?s = Pending" "handlers_of H ?s = []"
    using wi by (simp_all add: wired_def heap_defs new_instance_def)
  have o: "state_of H ?n = Pending \<longrightarrow> handlers_of H ?n = []"
    using I(7) room
    by (auto simp add: heap_defs new_instance_def split: option.splits)
  have d: "?q < next_promise H" "?r < next_promise H" "?q \<noteq> ?r" "?q \<noteq> ?s" "?q \<noteq> ?n"
      "?r \<noteq> ?s" "?r \<noteq> ?n" "?s \<noteq> ?n"
    using qn ev(1) by (simp_all add: I(2))
  have frame: "wired G (qs ! j) (ResolveFn ?n) (AnyCatch cx j) (Suc (?n + 2 * j))"
    if j: "j < ?N" "j \<notin> element_of ` set (evs @ [ev])"
      and G: "\<And>x. x \<noteq> ?q \<Longrightarrow> x \<noteq> ?r \<Longrightarrow> x \<noteq> ?s \<Longrightarrow> x \<noteq> ?n \<Longrightarrow>
                  promises G x = promises H x" for j G
  proof -
    have ji: "j \<noteq> ?i" "j \<notin> element_of ` set evs" using j(2) by auto
    have "qs ! j \<noteq> ?q" using ji(1) j(1) ev(1) b(1) by (simp add: nth_eq_iff_index_eq)
    moreover have "qs ! j < ?n" using b(2) j(1) by simp
    ultimately have 1: "promises G (qs ! j) = promises H (qs ! j)" by (intro G) simp_all
    have 2: "promises G (Suc (?n + 2 * j)) = promises H (Suc (?n + 2 * j))"
      using ji(1) qn by (intro G) presburger+
    have 3: "promises G (Suc (Suc (?n + 2 * j))) = promises H (Suc (Suc (?n + 2 * j)))"
      using ji(1) qn by (intro G) presburger+
    show ?thesis using wired_frame[OF I(3)[OF j(1) ji(2)] 1 2 3] .
  qed
  show ?thesis
  proof (cases ev)
    case (Fulfils i v)
    then have [simp]: "?i = i" by simp
    have y: "plain v" using ev(3) Fulfils by simp
    have H': "?H' = ticks 2 (resolve ?q v H)"
      using ev(1) Fulfils by (simp add: settle_element_def)
    note st = any_step_fulfil[OF I(1) e o d y, folded H']
    have 1: "queue ?H' = []" "next_promise ?H' = Suc (?n + 2 * ?N)"
      using st I(2) by simp_all
    have 2: "wired ?H' (qs ! j) (ResolveFn ?n) (AnyCatch cx j) (Suc (?n + 2 * j))"
      if "j < ?N" "j \<notin> element_of ` set (evs @ [ev])" for j
      using that by (rule frame) (simp add: st(1))
    have 3: "counters ?H' ?k = length (filter is_rejection (evs @ [ev]))"
      using st(3) I(4) Fulfils by simp
    have 4: "length (arrays ?H' ?a) \<le> ?N" using st(4) I(5) by simp
    have fi: "find (\<lambda>ev. element_of ev = i) evs = None"
      using ev(2) by (auto simp add: find_none_iff)
    have 5: "slot (arrays ?H' ?a) j =
         (case find (\<lambda>ev. element_of ev = j) (evs @ [ev]) of
            Some (Rejects j e) \<Rightarrow> Some e | _ \<Rightarrow> None)" for j
      using st(4) I(6)[of j] fi Fulfils
      by (cases "j = i") (auto simp add: find_snoc split: option.splits)
    have 6: "case find (\<lambda>ev. \<not> is_rejection ev) (evs @ [ev]) of
         Some ev \<Rightarrow> state_of ?H' ?n = Fulfilled \<and> result_of ?H' ?n = value_of ev
       | None \<Rightarrow>
           if length (evs @ [ev]) = ?N
           then state_of ?H' ?n = Rejected \<and>
                result_of ?H' ?n = VAggregateError (array_values (arrays ?H' ?a)) ?msg
           else promises ?H' ?n = new_instance"
    proof (cases "find (\<lambda>ev. \<not> is_rejection ev) evs")
      case None
      have p: "promises H ?n = new_instance" using I(7) None room by simp
      then have "state_of H ?n = Pending" by (simp add: heap_defs new_instance_def)
      then show ?thesis using None Fulfils st(1) d
        by (simp add: heap_defs find_snoc)
    next
      case (Some y)
      then have "state_of H ?n = Fulfilled" "result_of H ?n = value_of y"
        using I(7) by simp_all
      then show ?thesis using Some st(1) d by (simp add: heap_defs find_snoc)
    qed
    show ?thesis unfolding any_inv_def using 1 2 3 4 5 6 by blast
  next
    case (Rejects i x)
    then have [simp]: "?i = i" by simp
    have H': "?H' = ticks 2 (reject ?q x H)"
      using ev(1) Rejects by (simp add: settle_element_def)
    note st = any_step_reject[OF I(1) e o d, of x, folded H']
    have nf: "find (\<lambda>ev. \<not> is_rejection ev) (evs @ [ev]) = find (\<lambda>ev. \<not> is_rejection ev) evs"
      using Rejects by (simp add: find_snoc split: option.splits)
    have 1: "queue ?H' = []" "next_promise ?H' = Suc (?n + 2 * ?N)"
      using st I(2) by simp_all
    have 2: "wired ?H' (qs ! j) (ResolveFn ?n) (AnyCatch cx j) (Suc (?n + 2 * j))"
      if "j < ?N" "j \<notin> element_of ` set (evs @ [ev])" for j
      using that by (rule frame) (simp add: st(1))
    have 3: "counters ?H' ?k = length (filter is_rejection (evs @ [ev]))"
      using st(3) I(4) Rejects by simp
    have 4: "length (arrays ?H' ?a) \<le> ?N"
      using st(4) I(5) ev(1) by (simp add: length_arr_set)
    have fi: "find (\<lambda>ev. element_of ev = i) evs = None"
      using ev(2) by (auto simp add: find_none_iff)
    have 5: "slot (arrays ?H' ?a) j =
         (case find (\<lambda>ev. element_of ev = j) (evs @ [ev]) of
            Some (Rejects j e) \<Rightarrow> Some e | _ \<Rightarrow> None)" for j
      using st(4) I(6)[of j] fi Rejects
      by (cases "j = i") (auto simp add: slot_arr_set find_snoc split: option.splits)
    have 6: "case find (\<lambda>ev. \<not> is_rejection ev) (evs @ [ev]) of
         Some ev \<Rightarrow> state_of ?H' ?n = Fulfilled \<and> result_of ?H' ?n = value_of ev
       | None \<Rightarrow>
           if length (evs @ [ev]) = ?N
           then state_of ?H' ?n = Rejected \<and>
                result_of ?H' ?n = VAggregateError (array_values (arrays ?H' ?a)) ?msg
           else promises ?H' ?n = new_instance"
    proof (cases "find (\<lambda>ev. \<not> is_rejection ev) evs")
      case None
      then have "\<forall>x\<in>set evs. is_rejection x" by (simp add: find_none_iff)
      then have c: "counters H ?k = length evs" using I(4) by simp
      have p: "promises H ?n = new_instance" using I(7) None room by simp
      then have "state_of H ?n = Pending" by (simp add: heap_defs new_instance_def)
      then show ?thesis using None nf st(1,4) d c p b(3)
        by (auto simp add: heap_defs)
    next
      case (Some y)
      then have "state_of H ?n = Fulfilled" "result_of H ?n = value_of y"
        using I(7) by simp_all
      then show ?thesis using Some nf st(1) d by (simp add: heap_defs)
    qed
    show ?thesis unfolding any_inv_def using 1 2 3 4 5 6 by blast
  qed
qed

lemma any_inv_play:
  assumes inv: "any_inv qs cx [] H"
    and b: "distinct qs" "\<forall>q\<in>set qs. q < outer cx" "total cx = length qs"
    and evs: "distinct (map element_of evs)"
      "\<forall>ev\<in>set evs. element_of ev < length qs \<and> (is_rejection ev \<or> plain (value_of ev))"
  shows "any_inv qs cx evs (play qs evs H)"
  using evs
proof (induction evs rule: rev_induct)
  case Nil
  then show ?case using inv by simp
next
  case (snoc ev evs)
  have d: "distinct (map element_of evs)" "element_of ev \<notin> element_of ` set evs"
    using snoc.prems(1) by simp_all
  have r: "\<forall>ev\<in>set evs. element_of ev < length qs \<and> (is_rejection ev \<or> plain (value_of ev))"
    "element_of ev < length qs" "is_rejection ev \<or> plain (value_of ev)"
    using snoc.prems(2) by simp_all
  have r': "\<forall>ev\<in>set evs. element_of ev < length qs" using r(1) by simp
  from any_inv_step[OF snoc.IH[OF d(1) r(1)] b r(2) d(2) r(3) d(1) r']
  show ?case by (simp add: play_snoc)
qed


text \<open>Claim C8. \<^verbatim>\<open>MyPromise.any\<close> on an empty sequence rejects at once with an aggregate
  error of no reasons. On a non-empty sequence of distinct pending instances whose
  elements settle one after the other in any order: as soon as one element has
  fulfilled, the result is fulfilled with the value of the first element that
  fulfilled; with no fulfilment it is pending until every element has rejected, and
  then rejected with an aggregate error whose list holds at index \<open>i\<close> the reason of
  element \<open>i\<close>.\<close>

theorem any_follows_elements:
  assumes "qs \<noteq> []" "distinct qs"
    "\<forall>q\<in>set qs. q < next_promise h \<and> state_of h q = Pending \<and> handlers_of h q = []"
    "queue h = []"
    "distinct (map element_of evs)"
    "\<forall>ev\<in>set evs. element_of ev < length qs \<and> (is_rejection ev \<or> plain (value_of ev))"
  shows "fst (promise_any (map VPromise qs) h) = next_promise h \<and>
    queue (play qs evs (snd (promise_any (map VPromise qs) h))) = [] \<and>
    (case find (\<lambda>ev. \<not> is_rejection ev) evs of
       Some ev \<Rightarrow>
         state_of (play qs evs (snd (promise_any (map VPromise qs) h))) (next_promise h)
           = Fulfilled \<and>
         result_of (play qs evs (snd (promise_any (map VPromise qs) h))) (next_promise h)
           = value_of ev
     | None \<Rightarrow>
         if length evs = length qs
         then state_of (play qs evs (snd (promise_any (map VPromise qs) h))) (next_promise h)
                = Rejected \<and>
              result_of (play qs evs (snd (promise_any (map VPromise qs) h))) (next_promise h)
                = VAggregateError (array_values (values_by_element evs (length qs)))
                    ''All promises rejected.''
         else state_of (play qs evs (snd (promise_any (map VPromise qs) h))) (next_promise h)
                = Pending) \<and>
    state_of (snd (promise_any [] k)) (next_promise k) = Rejected \<and>
    result_of (snd (promise_any [] k)) (next_promise k)
      = VAggregateError [] ''Values is empty.''"
proof -
  let ?n = "next_promise h" and ?a = "next_array h" and ?N = "length qs"
  let ?cx = "\<lparr>outer = ?n, results = ?a, count = next_counter h, total = ?N\<rparr>"
  let ?H = "play qs evs (snd (promise_any (map VPromise qs) h))"
  let ?msg = "''All promises rejected.''"
  have b: "distinct qs" "\<forall>q\<in>set qs. q < outer ?cx" "total ?cx = length qs"
    using assms(2,3) by simp_all
  from any_inv_play[OF any_inv_init[OF assms(1-4)] b assms(5,6)]
  have inv: "any_inv qs ?cx evs ?H" .
  have sel: "outer ?cx = ?n" "results ?cx = ?a" by simp_all
  have I: "queue ?H = []" "length (arrays ?H ?a) \<le> ?N"
    "\<And>i. slot (arrays ?H ?a) i =
         (case find (\<lambda>ev. element_of ev = i) evs of
            Some (Rejects j e) \<Rightarrow> Some e | _ \<Rightarrow> None)"
    "case find (\<lambda>ev. \<not> is_rejection ev) evs of
         Some ev \<Rightarrow> state_of ?H ?n = Fulfilled \<and> result_of ?H ?n = value_of ev
       | None \<Rightarrow>
           if length evs = ?N
           then state_of ?H ?n = Rejected \<and>
                result_of ?H ?n = VAggregateError (array_values (arrays ?H ?a)) ?msg
           else promises ?H ?n = new_instance"
    using inv unfolding any_inv_def sel by blast+
  have 1: "fst (promise_any (map VPromise qs) h) = ?n"
    by (simp add: promise_any_instances[OF assms(1)])
  have arr: "arrays ?H ?a = values_by_element evs ?N"
    if none: "find (\<lambda>ev. \<not> is_rejection ev) evs = None" and full: "length evs = ?N"
  proof -
    have nr: "\<forall>ev\<in>set evs. is_rejection ev" using none by (simp add: find_none_iff)
    have el: "\<forall>ev\<in>set evs. element_of ev < ?N" using assms(6) by simp
    have sl: "slot (arrays ?H ?a) i =
        map_option value_of (find (\<lambda>ev. element_of ev = i) evs) \<and>
        slot (arrays ?H ?a) i \<noteq> None" if i: "i < ?N" for i
    proof -
      from elements_full[OF assms(5) el full i] find_element
      obtain ev where ev: "find (\<lambda>ev. element_of ev = i) evs = Some ev" "ev \<in> set evs"
        by blast
      then have "is_rejection ev" using nr by simp
      then obtain j v where "ev = Rejects j v" by (cases ev) simp_all
      then show ?thesis using I(3)[of i] ev by simp
    qed
    have len: "length (arrays ?H ?a) = ?N"
    proof (rule ccontr)
      assume "length (arrays ?H ?a) \<noteq> ?N"
      then have l: "length (arrays ?H ?a) < ?N" using I(2) by simp
      have "slot (arrays ?H ?a) (length (arrays ?H ?a)) = None" by (simp add: slot_def)
      moreover have "slot (arrays ?H ?a) (length (arrays ?H ?a)) \<noteq> None"
        using sl[OF l] by blast
      ultimately show False by blast
    qed
    show ?thesis
      by (rule nth_equalityI)
         (use len sl in \<open>auto simp add: values_by_element_def slot_def\<close>)
  qed
  have 2: "case find (\<lambda>ev. \<not> is_rejection ev) evs of
       Some ev \<Rightarrow> state_of ?H ?n = Fulfilled \<and> result_of ?H ?n = value_of ev
     | None \<Rightarrow>
         if length evs = ?N
         then state_of ?H ?n = Rejected \<and>
              result_of ?H ?n =
                VAggregateError (array_values (values_by_element evs ?N)) ?msg
         else state_of ?H ?n = Pending"
    using I(4) arr
    by (auto simp add: heap_defs new_instance_def split: option.splits)
  have 3: "state_of (snd (promise_any [] k)) (next_promise k) = Rejected \<and>
    result_of (snd (promise_any [] k)) (next_promise k)
      = VAggregateError [] ''Values is empty.''"
    by (simp add: promise_any_def new_array_def new_counter_def construct_def Let_def
          reject_def runHandlers_def heap_defs new_instance_def)
  show ?thesis using 1 I(1) 2 3 by simp
qed

theorem any_follows_elements_witness:
  "distinct [0::nat, 1] \<and>
   0 < next_promise (snd (new_promise [] None (snd (new_promise [] None empty_heap)))) \<and>
   1 < next_promise (snd (new_promise [] None (snd (new_promise [] None empty_heap)))) \<and>
   state_of (snd (new_promise [] None (snd (new_promise [] None empty_heap)))) 0 = Pending \<and>
   state_of (snd (new_promise [] None (snd (new_promise [] None empty_heap)))) 1 = Pending \<and>
   queue (snd (new_promise [] None (snd (new_promise [] None empty_heap)))) = [] \<and>
   plain (VNum 10) \<and>
   state_of (play [0, 1] [Rejects 1 (VStr ''b''), Rejects 0 (VStr ''a'')]
      (snd (promise_any [VPromise 0, VPromise 1]
         (snd (new_promise [] None (snd (new_promise [] None empty_heap))))))) 2 = Rejected \<and>
   result_of (play [0, 1] [Rejects 1 (VStr ''b''), Rejects 0 (VStr ''a'')]
      (snd (promise_any [VPromise 0, VPromise 1]
         (snd (new_promise [] None (snd (new_promise [] None empty_heap))))))) 2
     = VAggregateError [VStr ''a'', VStr ''b''] ''All promises rejected.'' \<and>
   state_of (play [0, 1] [Rejects 1 (VStr ''b''), Fulfils 0 (VNum 10)]
      (snd (promise_any [VPromise 0, VPromise 1]
         (snd (new_promise [] None (snd (new_promise [] None empty_heap))))))) 2 = Fulfilled \<and>
   result_of (play [0, 1] [Rejects 1 (VStr ''b''), Fulfils 0 (VNum 10)]
      (snd (promise_any [VPromise 0, VPromise 1]
         (snd (new_promise [] None (snd (new_promise [] None empty_heap))))))) 2 = VNum 10"
proof -
  let ?h = "snd (new_promise [] None (snd (new_promise [] None empty_heap)))"
  have v: "next_promise ?h = 2" "next_array ?h = 0" "state_of ?h 0 = Pending"
    "state_of ?h 1 = Pending" "handlers_of ?h 0 = []" "handlers_of ?h 1 = []" "queue ?h = []"
    by (simp_all add: eval_defs)
  have a: "[0::nat, 1] \<noteq> []" "distinct [0::nat, 1]"
    "\<forall>q\<in>set [0::nat, 1]. q < next_promise ?h \<and> state_of ?h q = Pending \<and> handlers_of ?h q = []"
    "queue ?h = []"
    using v by simp_all
  have p: "plain (VNum 10)" by (simp add: plain_def)
  have e1: "distinct (map element_of [Rejects 1 (VStr ''b''), Rejects 0 (VStr ''a'')])"
    "\<forall>ev\<in>set [Rejects 1 (VStr ''b''), Rejects 0 (VStr ''a'')].
       element_of ev < length [0::nat, 1] \<and> (is_rejection ev \<or> plain (value_of ev))"
    by simp_all
  have e2: "distinct (map element_of [Rejects 1 (VStr ''b''), Fulfils 0 (VNum 10)])"
    "\<forall>ev\<in>set [Rejects 1 (VStr ''b''), Fulfils 0 (VNum 10)].
       element_of ev < length [0::nat, 1] \<and> (is_rejection ev \<or> plain (value_of ev))"
    using p by simp_all
  have u: "[0..<2] = [0, Suc 0]" by (simp add: upt_rec numeral_2_eq_2)
  show ?thesis
    using any_follows_elements [OF a e1] any_follows_elements [OF a e2] v p
    by (simp add: values_by_element_def array_values_def u)
qed

end
